theory Spec2Isabelle
  imports Main "HOL-Library.Word" "HOL-Library.Sublist"
begin

section \<open>JavaScript strings\<close>

text \<open>
  A JavaScript string is a sequence of 16-bit code units. The regular expressions of
  \<^verbatim>\<open>extractActionItems\<close> carry no \<^verbatim>\<open>u\<close> flag, so they too work on code units.
  \<^verbatim>\<open>length\<close>, \<^verbatim>\<open>slice\<close>, \<^verbatim>\<open>startsWith\<close> and \<^verbatim>\<open>includes\<close> count and compare
  code units.

  \<^verbatim>\<open>toLowerCase\<close> follows the Unicode case tables of the host, which are not part of
  the repository: the functions that call it take it as the parameter \<open>toLowerCase\<close>,
  and the theorems hold for every such function. On a string of ASCII units it is
  \<open>asciiLowerCase\<close>, which the examples use.
\<close>

type_synonym cu = "16 word"
type_synonym jsstring = "cu list"

definition js :: "string \<Rightarrow> jsstring" where
  \<comment> \<open>an ASCII literal of the source, as code units\<close>
  "js s = map of_char s"

definition isSpace :: "cu \<Rightarrow> bool" where
  \<comment> \<open>the class \<^verbatim>\<open>\s\<close>, which is also what \<^verbatim>\<open>trim()\<close> removes: WhiteSpace and LineTerminator\<close>
  "isSpace c = (c = 0x9 \<or> c = 0xA \<or> c = 0xB \<or> c = 0xC \<or> c = 0xD \<or> c = 0x20 \<or> c = 0xA0
      \<or> c = 0x1680 \<or> (0x2000 \<le> c \<and> c \<le> 0x200A) \<or> c = 0x2028 \<or> c = 0x2029
      \<or> c = 0x202F \<or> c = 0x205F \<or> c = 0x3000 \<or> c = 0xFEFF)"

definition isLineTerminator :: "cu \<Rightarrow> bool" where
  "isLineTerminator c = (c = 0xA \<or> c = 0xD \<or> c = 0x2028 \<or> c = 0x2029)"

definition isDot :: "cu \<Rightarrow> bool" where
  \<comment> \<open>the class \<^verbatim>\<open>.\<close> without the \<^verbatim>\<open>s\<close> flag\<close>
  "isDot c = (\<not> isLineTerminator c)"

definition isUpperAZ :: "cu \<Rightarrow> bool" where
  "isUpperAZ c = (0x41 \<le> c \<and> c \<le> 0x5A)"

definition isLowerAZ :: "cu \<Rightarrow> bool" where
  "isLowerAZ c = (0x61 \<le> c \<and> c \<le> 0x7A)"

definition isWordChar :: "cu \<Rightarrow> bool" where
  \<comment> \<open>the class \<^verbatim>\<open>\w\<close>; without the \<^verbatim>\<open>u\<close> flag the \<^verbatim>\<open>i\<close> flag adds nothing to it\<close>
  "isWordChar c = (isUpperAZ c \<or> isLowerAZ c \<or> (0x30 \<le> c \<and> c \<le> 0x39) \<or> c = 0x5F)"

definition isBullet :: "cu \<Rightarrow> bool" where
  \<comment> \<open>the class \<^verbatim>\<open>[-*\<bullet>]\<close>: hyphen, asterisk, U+2022\<close>
  "isBullet c = (c = 0x2D \<or> c = 0x2A \<or> c = 0x2022)"

definition asciiUpper :: "cu \<Rightarrow> cu" where
  "asciiUpper c = (if isLowerAZ c then c - 0x20 else c)"

definition ciEq :: "cu \<Rightarrow> cu \<Rightarrow> bool" where
  \<comment> \<open>a pattern character \<open>p\<close> under the \<^verbatim>\<open>i\<close> flag against an input unit \<open>c\<close>. Every
      pattern character of the source is ASCII, and Canonicalize never maps a unit
      from 128 on to one below 128, so only the two ASCII cases of a letter match it.\<close>
  "ciEq p c = (asciiUpper c = asciiUpper p)"

definition asciiLowerCase :: "jsstring \<Rightarrow> jsstring" where
  \<comment> \<open>what \<^verbatim>\<open>toLowerCase()\<close> returns on a string of ASCII units\<close>
  "asciiLowerCase s = map (\<lambda>c. if isUpperAZ c then c + 0x20 else c) s"

definition trim :: "jsstring \<Rightarrow> jsstring" where
  "trim s = dropWhile isSpace (rev (dropWhile isSpace (rev s)))"

fun split_js :: "cu \<Rightarrow> jsstring \<Rightarrow> jsstring list" where
  \<comment> \<open>\<^verbatim>\<open>s.split(d)\<close> for a separator of one unit\<close>
  "split_js d [] = [Nil]"
| "split_js d (c # cs) =
     (if c = d then [] # split_js d cs
      else (case split_js d cs of [] \<Rightarrow> [c # Nil] | w # ws \<Rightarrow> (c # w) # ws))"

definition startsWith :: "jsstring \<Rightarrow> jsstring \<Rightarrow> bool" where
  "startsWith s x = (take (length x) s = x)"

fun includes_js :: "jsstring \<Rightarrow> jsstring \<Rightarrow> bool" where
  "includes_js [] x = (x = [])"
| "includes_js (c # cs) x = (startsWith (c # cs) x \<or> includes_js cs x)"

section \<open>Regular expressions as backtracking matchers\<close>

text \<open>
  A pattern is a function from a continuation to a matcher on the rest of the input; a
  matcher returns \<open>None\<close> when it fails, which makes the enclosing choice try its next
  alternative, as the backtracking of the source's engine does. Quantifiers are greedy:
  the longer match is tried first.
\<close>

type_synonym 'a cont = "jsstring \<Rightarrow> 'a option"

definition orElse :: "'a option \<Rightarrow> 'a option \<Rightarrow> 'a option" where
  "orElse a b = (case a of Some r \<Rightarrow> Some r | None \<Rightarrow> b)"

definition cls :: "(cu \<Rightarrow> bool) \<Rightarrow> 'a cont \<Rightarrow> 'a cont" where
  \<comment> \<open>one unit of a class\<close>
  "cls P k s = (case s of [] \<Rightarrow> None | c # cs \<Rightarrow> if P c then k cs else None)"

fun many :: "(cu \<Rightarrow> bool) \<Rightarrow> 'a cont \<Rightarrow> 'a cont" where
  \<comment> \<open>\<^verbatim>\<open>P*\<close>\<close>
  "many P k [] = k []"
| "many P k (c # cs) = (if P c then orElse (many P k cs) (k (c # cs)) else k (c # cs))"

definition many1 :: "(cu \<Rightarrow> bool) \<Rightarrow> 'a cont \<Rightarrow> 'a cont" where
  \<comment> \<open>\<^verbatim>\<open>P+\<close>\<close>
  "many1 P k = cls P (many P k)"

definition opt :: "('a cont \<Rightarrow> 'a cont) \<Rightarrow> 'a cont \<Rightarrow> 'a cont" where
  \<comment> \<open>\<^verbatim>\<open>m?\<close>\<close>
  "opt m k s = orElse (m k s) (k s)"

fun alts :: "('a cont \<Rightarrow> 'a cont) list \<Rightarrow> 'a cont \<Rightarrow> 'a cont" where
  \<comment> \<open>\<^verbatim>\<open>m1|m2|...\<close>, in the order written\<close>
  "alts [] k s = None"
| "alts (m # ms) k s = orElse (m k s) (alts ms k s)"

fun lit :: "jsstring \<Rightarrow> 'a cont \<Rightarrow> 'a cont" where
  \<comment> \<open>a literal, case-sensitive\<close>
  "lit [] k s = k s"
| "lit (p # ps) k s = cls (\<lambda>c. c = p) (lit ps k) s"

fun litI :: "jsstring \<Rightarrow> 'a cont \<Rightarrow> 'a cont" where
  \<comment> \<open>a literal under the \<^verbatim>\<open>i\<close> flag\<close>
  "litI [] k s = k s"
| "litI (p # ps) k s = cls (ciEq p) (litI ps k) s"

fun search :: "'a cont \<Rightarrow> jsstring \<Rightarrow> (jsstring \<times> 'a) option" where
  \<comment> \<open>a pattern without \<^verbatim>\<open>^\<close>: the leftmost start that matches; returns the input from
      that start on, and the matcher's result\<close>
  "search m [] = (case m [] of None \<Rightarrow> None | Some r \<Rightarrow> Some ([], r))"
| "search m (c # cs) =
     (case m (c # cs) of None \<Rightarrow> search m cs | Some r \<Rightarrow> Some (c # cs, r))"

definition matched :: "jsstring \<Rightarrow> jsstring \<Rightarrow> jsstring" where
  \<comment> \<open>the text consumed from \<open>s\<close> when \<open>r\<close> is what remains of it\<close>
  "matched s r = take (length s - length r) s"

section \<open>The patterns of extractActionItems\<close>

definition sectionPatterns :: "(jsstring cont \<Rightarrow> jsstring cont) list" where
  \<comment> \<open>in the order of the source: \<^verbatim>\<open>/^next\s*steps/i\<close>, \<^verbatim>\<open>/^action\s*items/i\<close>,
      \<^verbatim>\<open>/^follow[- ]?ups?/i\<close>, \<^verbatim>\<open>/^to[- ]?do/i\<close>, \<^verbatim>\<open>/^tasks?\s*:/i\<close>,
      \<^verbatim>\<open>/^deliverables/i\<close>\<close>
  "sectionPatterns =
    [ \<lambda>k. litI (js ''next'') (many isSpace (litI (js ''steps'') k)),
      \<lambda>k. litI (js ''action'') (many isSpace (litI (js ''items'') k)),
      \<lambda>k. litI (js ''follow'') (opt (cls (\<lambda>c. c = 0x2D \<or> c = 0x20))
             (litI (js ''up'') (opt (litI (js ''s'')) k))),
      \<lambda>k. litI (js ''to'') (opt (cls (\<lambda>c. c = 0x2D \<or> c = 0x20)) (litI (js ''do'') k)),
      \<lambda>k. litI (js ''task'') (opt (litI (js ''s'')) (many isSpace (lit (js '':'') k))),
      \<lambda>k. litI (js ''deliverables'') k ]"

definition markdownHeading :: "'a cont \<Rightarrow> 'a cont" where
  \<comment> \<open>\<^verbatim>\<open>/^#{1,3}\s/\<close>: one to three \<^verbatim>\<open>#\<close>, the most first, then one unit of \<^verbatim>\<open>\s\<close>\<close>
  "markdownHeading k =
     cls (\<lambda>c. c = 0x23)
       (opt (\<lambda>k'. cls (\<lambda>c. c = 0x23) (opt (cls (\<lambda>c. c = 0x23)) k')) (cls isSpace k))"

definition endPatterns :: "(jsstring cont \<Rightarrow> jsstring cont) list" where
  \<comment> \<open>in the order of the source: \<^verbatim>\<open>/^chat with meeting transcript/i\<close>, \<^verbatim>\<open>/^#{1,3}\s/\<close>,
      \<^verbatim>\<open>/^[A-Z][a-z]+ [A-Z][a-z]+ &/\<close>\<close>
  "endPatterns =
    [ \<lambda>k. litI (js ''chat with meeting transcript'') k,
      markdownHeading,
      \<lambda>k. cls isUpperAZ (many1 isLowerAZ (lit (js '' '')
             (cls isUpperAZ (many1 isLowerAZ (lit (js '' &'') k))))) ]"

definition regexTest :: "(jsstring cont \<Rightarrow> jsstring cont) \<Rightarrow> jsstring \<Rightarrow> bool" where
  \<comment> \<open>\<^verbatim>\<open>p.test(line)\<close> for a pattern that starts with \<^verbatim>\<open>^\<close>\<close>
  "regexTest p line = (p Some line \<noteq> None)"

definition someTest :: "(jsstring cont \<Rightarrow> jsstring cont) list \<Rightarrow> jsstring \<Rightarrow> bool" where
  \<comment> \<open>\<^verbatim>\<open>patterns.some((p) => p.test(line))\<close>\<close>
  "someTest ps line = list_ex (\<lambda>p. regexTest p line) ps"

definition ownerMatch :: "jsstring \<Rightarrow> (jsstring \<times> jsstring) option" where
  \<comment> \<open>\<^verbatim>\<open>line.match(/^(\w+(?:\s\w+)?)\s*:/)\<close>: the pair of the group \<^verbatim>\<open>[1]\<close> and the whole
      match \<^verbatim>\<open>[0]\<close>\<close>
  "ownerMatch line =
     (case many1 isWordChar (opt (\<lambda>k. cls isSpace (many1 isWordChar k))
             (\<lambda>g. many isSpace (lit (js '':'') (\<lambda>r. Some (g, r))) g)) line of
        None \<Rightarrow> None
      | Some (g, r) \<Rightarrow> Some (matched line g, matched line r))"

definition modal :: "'a cont \<Rightarrow> 'a cont" where
  \<comment> \<open>\<^verbatim>\<open>(?:to|will|should|needs? to)\<close> under the \<^verbatim>\<open>i\<close> flag\<close>
  "modal = alts [litI (js ''to''), litI (js ''will''), litI (js ''should''),
                 \<lambda>k. litI (js ''need'') (opt (litI (js ''s'')) (litI (js '' to'') k))]"

definition actionNames :: "jsstring list" where
  \<comment> \<open>the names of the alternation that opens the action pattern, in its order\<close>
  "actionNames = map js [''Blake'', ''Jacob'', ''Brien'', ''Cole'', ''Cory'', ''Ally'', ''Jenna'',
                         ''Jennifer'', ''Al'']"

definition actionPattern :: "'a cont \<Rightarrow> 'a cont" where
  \<comment> \<open>\<^verbatim>\<open>(?:Blake|Jacob|Brien|Cole|Cory|Ally|Jenna|Jennifer|Al)\s+(?:to|will|should|needs? to)\s+(.+)\<close>
      under the \<^verbatim>\<open>i\<close> flag\<close>
  "actionPattern k =
     alts (map litI actionNames) (many1 isSpace (modal (many1 isSpace (many1 isDot k))))"

definition actionMatch :: "jsstring \<Rightarrow> jsstring option" where
  \<comment> \<open>\<^verbatim>\<open>line.match(pattern)\<close> for the one pattern of \<^verbatim>\<open>actionPatterns\<close>: the whole match
      \<^verbatim>\<open>[0]\<close>\<close>
  "actionMatch line =
     (case search (actionPattern Some) line of
        None \<Rightarrow> None
      | Some (start, r) \<Rightarrow> Some (matched start r))"

definition ownerNameMatch :: "jsstring \<Rightarrow> jsstring option" where
  \<comment> \<open>\<^verbatim>\<open>line.match(/^(\w+(?:\s\w+)?)\s+(?:to|will|should|needs? to)/i)\<close>: the group \<^verbatim>\<open>[1]\<close>\<close>
  "ownerNameMatch line =
     (case many1 isWordChar (opt (\<lambda>k. cls isSpace (many1 isWordChar k))
             (\<lambda>g. many1 isSpace (modal (\<lambda>r. Some g)) g)) line of
        None \<Rightarrow> None
      | Some g \<Rightarrow> Some (matched line g))"

definition stripBullet :: "jsstring \<Rightarrow> jsstring" where
  \<comment> \<open>\<^verbatim>\<open>line.replace(/^[-*\<bullet>]\s*/, "")\<close>\<close>
  "stripBullet line =
     (case cls isBullet (many isSpace Some) line of None \<Rightarrow> line | Some r \<Rightarrow> r)"

section \<open>The scan\<close>

datatype error = TypeError

record actionItem =
  item :: jsstring
  owner :: jsstring

record scanState =
  inActionSection :: bool
  currentOwner :: "jsstring option"
  items :: "actionItem list"

definition defaultOwner :: jsstring where
  "defaultOwner = js ''Blake''"

fun detectOwner :: "(jsstring \<Rightarrow> jsstring) \<Rightarrow> jsstring \<Rightarrow> jsstring list \<Rightarrow> error + jsstring" where
  \<comment> \<open>the loop over \<^verbatim>\<open>attendees\<close> with its \<^verbatim>\<open>break\<close>; \<^verbatim>\<open>name.split(" ")[0]\<close> of an empty
      array would be \<^verbatim>\<open>undefined\<close>, whose \<^verbatim>\<open>toLowerCase\<close> throws\<close>
  "detectOwner toLowerCase line [] = Inr defaultOwner"
| "detectOwner toLowerCase line (name # rest) =
     (case split_js 0x20 name of
        [] \<Rightarrow> Inl TypeError
      | firstName # _ \<Rightarrow>
          if includes_js (toLowerCase line) (toLowerCase firstName @ js '' to '')
             \<or> includes_js (toLowerCase line) (toLowerCase firstName @ js '' will '')
             \<or> startsWith (toLowerCase line) (toLowerCase firstName)
          then Inr name
          else detectOwner toLowerCase line rest)"

definition orOwner :: "jsstring option \<Rightarrow> jsstring \<Rightarrow> jsstring" where
  \<comment> \<open>\<^verbatim>\<open>currentOwner || owner\<close>: \<^verbatim>\<open>null\<close> and the empty string are falsy\<close>
  "orOwner cur own = (case cur of None \<Rightarrow> own | Some c \<Rightarrow> if c = [] then own else c)"

definition pushItem :: "actionItem \<Rightarrow> scanState \<Rightarrow> scanState" where
  "pushItem x st = st\<lparr>items := items st @ [x]\<rparr>"

definition contentRule ::
  "(jsstring \<Rightarrow> jsstring) \<Rightarrow> jsstring list \<Rightarrow> jsstring \<Rightarrow> scanState \<Rightarrow> error + scanState" where
  \<comment> \<open>\<^verbatim>\<open>if (inActionSection && line.length > 10) { ... }\<close>\<close>
  "contentRule toLowerCase attendees line st =
     (if inActionSection st \<and> length line > 10 then
        (case detectOwner toLowerCase line attendees of
           Inl e \<Rightarrow> Inl e
         | Inr own \<Rightarrow>
             Inr (pushItem \<lparr>item = stripBullet line, owner = orOwner (currentOwner st) own\<rparr> st))
      else Inr st)"

definition standaloneRule :: "jsstring \<Rightarrow> scanState \<Rightarrow> scanState" where
  \<comment> \<open>\<^verbatim>\<open>if (!inActionSection) { ... }\<close>\<close>
  "standaloneRule line st =
     (if \<not> inActionSection st then
        (case actionMatch line of
           None \<Rightarrow> st
         | Some m0 \<Rightarrow>
             pushItem \<lparr>item = m0,
                   owner = (case ownerNameMatch line of None \<Rightarrow> defaultOwner | Some g \<Rightarrow> g)\<rparr> st)
      else st)"

definition contentAndStandalone ::
  "(jsstring \<Rightarrow> jsstring) \<Rightarrow> jsstring list \<Rightarrow> jsstring \<Rightarrow> scanState \<Rightarrow> error + scanState" where
  "contentAndStandalone toLowerCase attendees line st =
     (case contentRule toLowerCase attendees line st of
        Inl e \<Rightarrow> Inl e
      | Inr st' \<Rightarrow> Inr (standaloneRule line st'))"

definition processLine ::
  "(jsstring \<Rightarrow> jsstring) \<Rightarrow> jsstring list \<Rightarrow> jsstring \<Rightarrow> scanState \<Rightarrow> error + scanState" where
  \<comment> \<open>the body of the loop over \<^verbatim>\<open>lines\<close>, on the element \<open>raw\<close>\<close>
  "processLine toLowerCase attendees raw st =
     (let line = trim raw in
      if line = [] then Inr st
      else if someTest sectionPatterns line then Inr (st\<lparr>inActionSection := True\<rparr>)
      else if someTest endPatterns line \<and> inActionSection st
        then Inr (st\<lparr>inActionSection := False\<rparr>)
      else
        (case ownerMatch line of
           Some (m1, m0) \<Rightarrow>
             if inActionSection st then
               (let st1 = st\<lparr>currentOwner := Some m1\<rparr>;
                    rest = trim (drop (length m0) line)
                in if rest \<noteq> [] then Inr (pushItem \<lparr>item = rest, owner = m1\<rparr> st1) else Inr st1)
             else contentAndStandalone toLowerCase attendees line st
         | None \<Rightarrow> contentAndStandalone toLowerCase attendees line st))"

fun scanLines ::
  "(jsstring \<Rightarrow> jsstring) \<Rightarrow> jsstring list \<Rightarrow> jsstring list \<Rightarrow> scanState \<Rightarrow> error + scanState" where
  "scanLines toLowerCase attendees [] st = Inr st"
| "scanLines toLowerCase attendees (raw # raws) st =
     (case processLine toLowerCase attendees raw st of
        Inl e \<Rightarrow> Inl e
      | Inr st' \<Rightarrow> scanLines toLowerCase attendees raws st')"

definition dedupKey :: "(jsstring \<Rightarrow> jsstring) \<Rightarrow> actionItem \<Rightarrow> jsstring" where
  \<comment> \<open>\<^verbatim>\<open>item.item.toLowerCase().slice(0, 50)\<close>\<close>
  "dedupKey toLowerCase x = take 50 (toLowerCase (item x))"

fun dedup :: "(jsstring \<Rightarrow> jsstring) \<Rightarrow> jsstring set \<Rightarrow> actionItem list \<Rightarrow> actionItem list" where
  \<comment> \<open>\<^verbatim>\<open>items.filter(...)\<close> with the set \<^verbatim>\<open>seen\<close> that its callback updates\<close>
  "dedup toLowerCase seen [] = []"
| "dedup toLowerCase seen (x # xs) =
     (if dedupKey toLowerCase x \<in> seen then dedup toLowerCase seen xs
      else x # dedup toLowerCase (insert (dedupKey toLowerCase x) seen) xs)"

definition initialState :: scanState where
  "initialState = \<lparr>inActionSection = False, currentOwner = None, items = []\<rparr>"

definition extractActionItems ::
  "(jsstring \<Rightarrow> jsstring) \<Rightarrow> jsstring \<Rightarrow> jsstring \<Rightarrow> jsstring \<Rightarrow> jsstring list
     \<Rightarrow> error + actionItem list" where
  \<comment> \<open>\<open>toLowerCase\<close> is the host's \<^verbatim>\<open>String.prototype.toLowerCase\<close>, whose Unicode case
      table is not part of the repository\<close>
  "extractActionItems toLowerCase panelText meetingTitle meetingDate attendees =
     (case scanLines toLowerCase attendees (split_js 0xA panelText) initialState of
        Inl e \<Rightarrow> Inl e
      | Inr st \<Rightarrow> Inr (dedup toLowerCase {} (items st)))"

section \<open>One invocation as a step relation\<close>

text \<open>
  Everything an invocation mutates is created by the invocation itself: the loop
  variables \<^verbatim>\<open>inActionSection\<close>, \<^verbatim>\<open>currentOwner\<close> and \<^verbatim>\<open>items\<close>, and the set
  \<^verbatim>\<open>seen\<close> of the filter; the patterns carry no \<^verbatim>\<open>g\<close> or \<^verbatim>\<open>y\<close> flag, so no
  \<^verbatim>\<open>lastIndex\<close> is read or written. The relations below give one rule to each path
  through the loop body and through the filter callback, with the conditions under
  which the source takes it.
\<close>

inductive lineStep ::
  "(jsstring \<Rightarrow> jsstring) \<Rightarrow> jsstring list \<Rightarrow> jsstring \<Rightarrow> scanState \<Rightarrow> scanState \<Rightarrow> bool"
  for toLowerCase :: "jsstring \<Rightarrow> jsstring" and attendees :: "jsstring list" and raw :: jsstring
where
  blank:
    "trim raw = [] \<Longrightarrow> lineStep toLowerCase attendees raw st st"
| header:
    "trim raw \<noteq> [] \<Longrightarrow> someTest sectionPatterns (trim raw) \<Longrightarrow>
     lineStep toLowerCase attendees raw st (st\<lparr>inActionSection := True\<rparr>)"
| terminator:
    "trim raw \<noteq> [] \<Longrightarrow> \<not> someTest sectionPatterns (trim raw) \<Longrightarrow>
     someTest endPatterns (trim raw) \<Longrightarrow> inActionSection st \<Longrightarrow>
     lineStep toLowerCase attendees raw st (st\<lparr>inActionSection := False\<rparr>)"
| ownerWithText:
    "trim raw \<noteq> [] \<Longrightarrow> \<not> someTest sectionPatterns (trim raw) \<Longrightarrow>
     \<not> someTest endPatterns (trim raw) \<Longrightarrow> inActionSection st \<Longrightarrow>
     ownerMatch (trim raw) = Some (m1, m0) \<Longrightarrow> trim (drop (length m0) (trim raw)) \<noteq> [] \<Longrightarrow>
     lineStep toLowerCase attendees raw st
       (pushItem \<lparr>item = trim (drop (length m0) (trim raw)), owner = m1\<rparr>
          (st\<lparr>currentOwner := Some m1\<rparr>))"
| ownerAlone:
    "trim raw \<noteq> [] \<Longrightarrow> \<not> someTest sectionPatterns (trim raw) \<Longrightarrow>
     \<not> someTest endPatterns (trim raw) \<Longrightarrow> inActionSection st \<Longrightarrow>
     ownerMatch (trim raw) = Some (m1, m0) \<Longrightarrow> trim (drop (length m0) (trim raw)) = [] \<Longrightarrow>
     lineStep toLowerCase attendees raw st (st\<lparr>currentOwner := Some m1\<rparr>)"
| content:
    "trim raw \<noteq> [] \<Longrightarrow> \<not> someTest sectionPatterns (trim raw) \<Longrightarrow>
     \<not> someTest endPatterns (trim raw) \<Longrightarrow> inActionSection st \<Longrightarrow>
     ownerMatch (trim raw) = None \<Longrightarrow> 10 < length (trim raw) \<Longrightarrow>
     detectOwner toLowerCase (trim raw) attendees = Inr own \<Longrightarrow>
     lineStep toLowerCase attendees raw st
       (pushItem \<lparr>item = stripBullet (trim raw), owner = orOwner (currentOwner st) own\<rparr> st)"
| tooShort:
    "trim raw \<noteq> [] \<Longrightarrow> \<not> someTest sectionPatterns (trim raw) \<Longrightarrow>
     \<not> someTest endPatterns (trim raw) \<Longrightarrow> inActionSection st \<Longrightarrow>
     ownerMatch (trim raw) = None \<Longrightarrow> length (trim raw) \<le> 10 \<Longrightarrow>
     lineStep toLowerCase attendees raw st st"
| standalone:
    "trim raw \<noteq> [] \<Longrightarrow> \<not> someTest sectionPatterns (trim raw) \<Longrightarrow>
     \<not> inActionSection st \<Longrightarrow> actionMatch (trim raw) = Some m0 \<Longrightarrow>
     lineStep toLowerCase attendees raw st
       (pushItem \<lparr>item = m0,
          owner = (case ownerNameMatch (trim raw) of None \<Rightarrow> defaultOwner | Some g \<Rightarrow> g)\<rparr> st)"
| nothing:
    "trim raw \<noteq> [] \<Longrightarrow> \<not> someTest sectionPatterns (trim raw) \<Longrightarrow>
     \<not> inActionSection st \<Longrightarrow> actionMatch (trim raw) = None \<Longrightarrow>
     lineStep toLowerCase attendees raw st st"

inductive scanSteps ::
  "(jsstring \<Rightarrow> jsstring) \<Rightarrow> jsstring list \<Rightarrow> jsstring list \<Rightarrow> scanState \<Rightarrow> scanState \<Rightarrow> bool"
  for toLowerCase :: "jsstring \<Rightarrow> jsstring" and attendees :: "jsstring list"
where
  endOfLines: "scanSteps toLowerCase attendees [] st st"
| nextLine: "lineStep toLowerCase attendees raw st st1 \<Longrightarrow> scanSteps toLowerCase attendees raws st1 st2 \<Longrightarrow>
         scanSteps toLowerCase attendees (raw # raws) st st2"

inductive dedupSteps ::
  "(jsstring \<Rightarrow> jsstring) \<Rightarrow> jsstring set \<Rightarrow> actionItem list \<Rightarrow> actionItem list \<Rightarrow> bool"
  for toLowerCase :: "jsstring \<Rightarrow> jsstring"
where
  finished: "dedupSteps toLowerCase seen [] []"
| seenBefore:
    "dedupKey toLowerCase x \<in> seen \<Longrightarrow> dedupSteps toLowerCase seen xs ys \<Longrightarrow>
     dedupSteps toLowerCase seen (x # xs) ys"
| firstSeen:
    "dedupKey toLowerCase x \<notin> seen \<Longrightarrow>
     dedupSteps toLowerCase (insert (dedupKey toLowerCase x) seen) xs ys \<Longrightarrow>
     dedupSteps toLowerCase seen (x # xs) (x # ys)"

inductive invocation ::
  "(jsstring \<Rightarrow> jsstring) \<Rightarrow> jsstring \<Rightarrow> jsstring list \<Rightarrow> actionItem list \<Rightarrow> bool"
  for toLowerCase :: "jsstring \<Rightarrow> jsstring" and panelText :: jsstring and attendees :: "jsstring list"
where
  returns:
    "scanSteps toLowerCase attendees (split_js 0xA panelText) initialState st \<Longrightarrow>
     dedupSteps toLowerCase {} (items st) result \<Longrightarrow>
     invocation toLowerCase panelText attendees result"

code_pred lineStep .

code_pred scanSteps .

code_pred dedupSteps .

code_pred invocation .

section \<open>The owner resolution in the words of the specification\<close>

text \<open>
  For each known attendee name, take its first token; the attendee matches when the
  lowercased line contains the lowercased first name followed by \<^verbatim>\<open>" to "\<close> or
  \<^verbatim>\<open>" will "\<close>, or starts with it. The owner is the first attendee that matches, in the
  order of the list, and the default owner when none does.
\<close>

definition firstToken :: "jsstring \<Rightarrow> jsstring" where
  "firstToken name = takeWhile (\<lambda>c. c \<noteq> 0x20) name"

definition attendeeMatches :: "(jsstring \<Rightarrow> jsstring) \<Rightarrow> jsstring \<Rightarrow> jsstring \<Rightarrow> bool" where
  "attendeeMatches toLowerCase line name =
     (includes_js (toLowerCase line) (toLowerCase (firstToken name) @ js '' to '')
      \<or> includes_js (toLowerCase line) (toLowerCase (firstToken name) @ js '' will '')
      \<or> startsWith (toLowerCase line) (toLowerCase (firstToken name)))"

definition resolveOwner_spec :: "(jsstring \<Rightarrow> jsstring) \<Rightarrow> jsstring \<Rightarrow> jsstring list \<Rightarrow> jsstring" where
  "resolveOwner_spec toLowerCase line attendees =
     (case List.find (attendeeMatches toLowerCase line) attendees of
        None \<Rightarrow> defaultOwner
      | Some name \<Rightarrow> name)"

section \<open>Where the text of an item comes from\<close>

text \<open>
  The three places of the loop body that push an item: the in-section content rule
  (the line without one leading bullet marker), the standalone rule (the whole match of
  the action pattern) and the owner-prefix rule (what follows the colon, trimmed).
\<close>

definition textFrom :: "jsstring \<Rightarrow> jsstring \<Rightarrow> bool" where
  "textFrom line t =
     (t = stripBullet line \<or> actionMatch line = Some t
      \<or> (case ownerMatch line of None \<Rightarrow> False
          | Some (m1, m0) \<Rightarrow> t = trim (drop (length m0) line)))"

text \<open>
  What holds of an item pushed while the line \<open>raw\<close> is processed: its text is not
  empty and does not begin with whitespace, it is trimmed when the line holds no line
  terminator, its owner is not empty when no attendee name is empty, and its text comes
  from one of the three places above.
\<close>

definition emittedFrom :: "jsstring list \<Rightarrow> jsstring \<Rightarrow> actionItem \<Rightarrow> bool" where
  "emittedFrom attendees raw x =
     (item x \<noteq> [] \<and> \<not> isSpace (hd (item x))
      \<and> (list_all isDot raw \<longrightarrow> trim (item x) = item x)
      \<and> ([] \<notin> set attendees \<longrightarrow> owner x \<noteq> [])
      \<and> textFrom (trim raw) (item x))"

section \<open>A line outside a section\<close>

text \<open>
  What the loop body does to a line that is no header while the scan is outside a
  section: a blank line is skipped, any other line goes through the standalone rule
  alone.
\<close>

definition standaloneOnly :: "scanState \<Rightarrow> jsstring \<Rightarrow> scanState" where
  "standaloneOnly st raw = (if trim raw = [] then st else standaloneRule (trim raw) st)"

section \<open>The carried owner\<close>

text \<open>The carried owner is either unset or a non-empty name.\<close>

definition ownerSet :: "scanState \<Rightarrow> bool" where
  "ownerSet st = (case currentOwner st of None \<Rightarrow> True | Some own \<Rightarrow> own \<noteq> [])"

section \<open>Example data\<close>

definition itemA :: actionItem where
  "itemA = \<lparr>item = js ''Send the deck to the client before the end of the week, please'',
            owner = js ''Blake''\<rparr>"

definition itemB :: actionItem where
  "itemB = \<lparr>item = js ''send the deck to the client before the end of the WEEK and call'',
            owner = js ''Jacob''\<rparr>"

definition itemC :: actionItem where
  "itemC = \<lparr>item = js ''book the room'', owner = js ''Cole''\<rparr>"

definition quietText :: jsstring where
  "quietText = js ''Summary of the call'' @ [0xA] @ js ''  Blake: send the deck'' @ [0xA] @ [0xA]
     @ js ''- pricing was discussed at length''"

definition insideState :: scanState where
  "insideState = \<lparr>inActionSection = True, currentOwner = None, items = []\<rparr>"

definition afterHeading :: "jsstring list" where
  "afterHeading = [js ''the pricing was discussed at length'', js ''Cole: check the numbers'',
                   js ''Jacob to review the contract'']"

definition carriedState :: scanState where
  "carriedState = \<lparr>inActionSection = True, currentOwner = Some (js ''Cole''), items = []\<rparr>"

definition reopened :: "jsstring list" where
  "reopened = [js ''Next Steps'', js ''Cole:'', js ''## Summary'', js ''the pricing was discussed'',
               js ''Action Items'']"

definition messyText :: jsstring where
  "messyText = js ''Blake to call '' @ [0xD] @ js '' now'' @ [0xA] @ js ''Next Steps'' @ [0xA]
     @ js ''- - call the vendor today''"

definition tidyText :: jsstring where
  "tidyText = js ''Jacob to review the contract'' @ [0xA] @ js ''Next Steps'' @ [0xA]
     @ js ''Cole: check the numbers'' @ [0xA] @ js ''* email the new pricing''"

section \<open>What a successful match has consumed\<close>

text \<open>
  Every matcher hands a suffix of its input to its continuation; the lemmas below follow
  a successful match through the combinators down to the final continuation.
\<close>

lemma orElse_Some: "orElse a b = Some r \<Longrightarrow> a = Some r \<or> b = Some r"
  by (cases a) (simp_all add: orElse_def)

lemma cls_Some: "cls P k s = Some r \<Longrightarrow> \<exists>c cs. s = c # cs \<and> P c \<and> k cs = Some r"
  by (cases s) (simp_all add: cls_def split: if_splits)

lemma many_Some: "many P k s = Some r \<Longrightarrow> \<exists>s'. suffix s' s \<and> k s' = Some r"
proof (induction s)
  case Nil
  then show ?case by auto
next
  case (Cons c cs)
  show ?case
  proof (cases "P c \<and> many P k cs = Some r")
    case True
    then obtain s' where "suffix s' cs" "k s' = Some r" using Cons.IH by blast
    then have "suffix s' (c # cs)" by (simp add: suffix_Cons)
    then show ?thesis using \<open>k s' = Some r\<close> by blast
  next
    case False
    then have "k (c # cs) = Some r" using Cons.prems
      by (auto split: if_splits dest: orElse_Some)
    then show ?thesis by blast
  qed
qed

lemma alts_Some: "alts ms k s = Some r \<Longrightarrow> \<exists>m \<in> set ms. m k s = Some r"
  by (induction ms) (auto dest: orElse_Some)

lemma lit_Some: "lit ps k s = Some r \<Longrightarrow> \<exists>s'. suffix s' s \<and> k s' = Some r"
proof (induction ps arbitrary: s)
  case Nil
  then show ?case by auto
next
  case (Cons p ps)
  from Cons.prems have "cls (\<lambda>c. c = p) (lit ps k) s = Some r" by simp
  from cls_Some [OF this] obtain c cs where s: "s = c # cs" "lit ps k cs = Some r" by blast
  from Cons.IH [OF s(2)] obtain s' where "suffix s' cs" "k s' = Some r" by blast
  then show ?case using s(1) by (auto simp: suffix_Cons)
qed

lemma litI_Some:
  "litI ps k s = Some r \<Longrightarrow> \<exists>s'. suffix s' s \<and> k s' = Some r \<and> (ps \<noteq> [] \<longrightarrow> s \<noteq> [] \<and> ciEq (hd ps) (hd s) \<and> s' \<noteq> s)"
proof (induction ps arbitrary: s)
  case Nil
  then show ?case by auto
next
  case (Cons p ps)
  from Cons.prems have "cls (ciEq p) (litI ps k) s = Some r" by simp
  from cls_Some [OF this] obtain c cs where s: "s = c # cs" "ciEq p c" "litI ps k cs = Some r" by blast
  from Cons.IH [OF s(3)] obtain s' where s': "suffix s' cs" "k s' = Some r" by blast
  then have "s' \<noteq> c # cs" by (auto dest: suffix_length_le)
  then show ?case using s s' by (auto simp: suffix_Cons)
qed


lemma suffix_strict_Cons: "suffix s' cs \<Longrightarrow> strict_suffix s' (c # cs)"
  by (auto simp: strict_suffix_def suffix_Cons dest: suffix_length_le)

lemma strict_suffix_length: "strict_suffix g s \<Longrightarrow> length g < length s"
  by (auto simp: strict_suffix_def suffix_def)

lemma opt_Some: "opt m k s = Some r \<Longrightarrow> m k s = Some r \<or> k s = Some r"
  by (auto simp: opt_def dest: orElse_Some)

lemma many1_Some:
  assumes "many1 P k s = Some r"
  shows "\<exists>s'. strict_suffix s' s \<and> k s' = Some r \<and> s \<noteq> [] \<and> P (hd s)"
proof -
  from assms have "cls P (many P k) s = Some r" by (simp add: many1_def)
  from cls_Some [OF this] obtain c cs where s: "s = c # cs" "P c" "many P k cs = Some r" by blast
  from many_Some [OF s(3)] obtain s' where s': "suffix s' cs" "k s' = Some r" by blast
  from suffix_strict_Cons [OF s'(1)] have "strict_suffix s' s" using s(1) by simp
  then show ?thesis using s s' by auto
qed

lemma many_Some_dropWhile: "many P Some s = Some (dropWhile P s)"
  by (induction s) (simp_all add: orElse_def)

lemma litI_Some_strict:
  assumes "ps \<noteq> []" "litI ps k s = Some r"
  shows "\<exists>s'. strict_suffix s' s \<and> k s' = Some r"
  using litI_Some [OF assms(2)] assms(1) by (auto simp: strict_suffix_def)

lemma litI_Some_hd: "litI (p # ps) k s = Some r \<Longrightarrow> s \<noteq> [] \<and> ciEq p (hd s)"
  using litI_Some [of "p # ps" k s r] by auto

lemma js_not_Nil: "s \<noteq> [] \<Longrightarrow> js s \<noteq> []"
  by (simp add: js_def)

lemma search_Some: "search m s = Some (start, r) \<Longrightarrow> suffix start s \<and> m start = Some r"
proof (induction s)
  case Nil
  then show ?case by (auto split: option.splits)
next
  case (Cons c cs)
  show ?case
  proof (cases "m (c # cs)")
    case None
    then have "search m cs = Some (start, r)" using Cons.prems by simp
    from Cons.IH [OF this] show ?thesis by (simp add: suffix_Cons)
  next
    case (Some r')
    then show ?thesis using Cons.prems by auto
  qed
qed

lemma modal_Some:
  assumes "modal k s = Some r"
  shows "\<exists>s'. strict_suffix s' s \<and> k s' = Some r"
proof -
  let ?needs = "\<lambda>k. litI (js ''need'') (opt (litI (js ''s'')) (litI (js '' to'') k))"
  from assms have "alts [litI (js ''to''), litI (js ''will''), litI (js ''should''), ?needs] k s = Some r"
    by (simp add: modal_def)
  from alts_Some [OF this]
  consider "litI (js ''to'') k s = Some r" | "litI (js ''will'') k s = Some r"
    | "litI (js ''should'') k s = Some r" | "?needs k s = Some r"
    by auto
  then show ?thesis
  proof cases
    case 1
    then show ?thesis by (rule litI_Some_strict [OF js_not_Nil, rotated]) simp
  next
    case 2
    then show ?thesis by (rule litI_Some_strict [OF js_not_Nil, rotated]) simp
  next
    case 3
    then show ?thesis by (rule litI_Some_strict [OF js_not_Nil, rotated]) simp
  next
    case 4
    have ne: "js ''need'' \<noteq> []" "js '' to'' \<noteq> []" "js ''s'' \<noteq> []" by (simp_all add: js_def)
    from litI_Some_strict [OF ne(1) 4] obtain s1
      where s1: "strict_suffix s1 s" "opt (litI (js ''s'')) (litI (js '' to'') k) s1 = Some r" by blast
    from opt_Some [OF s1(2)]
    have "\<exists>s2. suffix s2 s1 \<and> litI (js '' to'') k s2 = Some r"
    proof
      assume "litI (js ''s'') (litI (js '' to'') k) s1 = Some r"
      from litI_Some_strict [OF ne(3) this] show ?thesis by (auto simp: strict_suffix_def)
    next
      assume "litI (js '' to'') k s1 = Some r"
      then show ?thesis by blast
    qed
    then obtain s2 where s2: "suffix s2 s1" "litI (js '' to'') k s2 = Some r" by blast
    from litI_Some_strict [OF ne(2) s2(2)] obtain s3 where s3: "strict_suffix s3 s2" "k s3 = Some r"
      by blast
    from s1(1) s2(1) s3(1) have "strict_suffix s3 s"
      by (meson suffix_order.le_less_trans suffix_order.less_trans suffix_order.less_le_trans)
    then show ?thesis using s3(2) by blast
  qed
qed


lemma matched_not_Nil: "strict_suffix g s \<Longrightarrow> matched s g \<noteq> []"
  using strict_suffix_length [of g s] by (cases s) (auto simp: matched_def)

lemma matched_append: "suffix r s \<Longrightarrow> matched s r @ r = s"
  by (auto simp: matched_def suffix_def)

lemma lit_Nil: "lit [] k = k"
  by (rule ext) simp

lemma litI_Nil: "litI [] k = k"
  by (rule ext) simp

lemma colon_Some:
  assumes "many isSpace (lit (js '':'') (\<lambda>r. Some (t, r))) t = Some (g, r)"
  shows "g = t \<and> strict_suffix r t"
proof -
  from many_Some [OF assms] obtain t1
    where t1: "suffix t1 t" "lit (js '':'') (\<lambda>r. Some (t, r)) t1 = Some (g, r)" by blast
  from t1(2) have "cls (\<lambda>c. c = 0x3A) (\<lambda>r. Some (t, r)) t1 = Some (g, r)" by (simp add: js_def lit_Nil)
  from cls_Some [OF this] obtain c cs where cs: "t1 = c # cs" "g = t" "r = cs" by auto
  have "strict_suffix cs t1" using cs(1) by (simp add: suffix_strict_Cons)
  then show ?thesis using cs t1(1) by (meson suffix_order.less_le_trans)
qed

lemma ownerMatch_Some:
  assumes "ownerMatch line = Some (m1, m0)"
  shows "\<exists>g r. strict_suffix g line \<and> strict_suffix r g \<and> m1 = matched line g \<and> m0 = matched line r"
proof -
  let ?K = "\<lambda>g. many isSpace (lit (js '':'') (\<lambda>r. Some (g, r))) g"
  let ?G = "\<lambda>k. cls isSpace (many1 isWordChar k)"
  from assms obtain g r where gr: "many1 isWordChar (opt ?G ?K) line = Some (g, r)"
    and m: "m1 = matched line g" "m0 = matched line r"
    by (auto simp: ownerMatch_def split: option.splits)
  from many1_Some [OF gr] obtain s1
    where s1: "strict_suffix s1 line" "opt ?G ?K s1 = Some (g, r)" by blast
  from opt_Some [OF s1(2)] have "\<exists>t. suffix t s1 \<and> ?K t = Some (g, r)"
  proof
    assume "?G ?K s1 = Some (g, r)"
    from cls_Some [OF this] obtain c cs
      where cs: "s1 = c # cs" "many1 isWordChar ?K cs = Some (g, r)" by blast
    from many1_Some [OF cs(2)] obtain t where "strict_suffix t cs" "?K t = Some (g, r)" by blast
    then show ?thesis using cs(1) by (auto simp: strict_suffix_def suffix_Cons)
  next
    assume "?K s1 = Some (g, r)"
    then show ?thesis by blast
  qed
  then obtain t where t: "suffix t s1" "?K t = Some (g, r)" by blast
  from colon_Some [OF t(2)] have "g = t" "strict_suffix r t" by simp_all
  moreover from s1(1) t(1) have "strict_suffix t line" by (meson suffix_order.le_less_trans)
  ultimately show ?thesis using m by blast
qed

lemma ownerMatch_group_not_Nil:
  assumes "ownerMatch line = Some (m1, m0)"
  shows "m1 \<noteq> []"
proof -
  from ownerMatch_Some [OF assms] obtain g where "strict_suffix g line" "m1 = matched line g"
    by blast
  then show ?thesis by (simp add: matched_not_Nil)
qed

lemma ownerNameMatch_not_Nil:
  assumes "ownerNameMatch line = Some m1"
  shows "m1 \<noteq> []"
proof -
  let ?K = "\<lambda>g. many1 isSpace (modal (\<lambda>r. Some g)) g"
  let ?G = "\<lambda>k. cls isSpace (many1 isWordChar k)"
  from assms obtain g where g: "many1 isWordChar (opt ?G ?K) line = Some g"
    and m: "m1 = matched line g"
    by (auto simp: ownerNameMatch_def split: option.splits)
  from many1_Some [OF g] obtain s1
    where s1: "strict_suffix s1 line" "opt ?G ?K s1 = Some g" by blast
  from opt_Some [OF s1(2)] have "\<exists>t. suffix t s1 \<and> ?K t = Some g"
  proof
    assume "?G ?K s1 = Some g"
    from cls_Some [OF this] obtain c cs
      where cs: "s1 = c # cs" "many1 isWordChar ?K cs = Some g" by blast
    from many1_Some [OF cs(2)] obtain t where "strict_suffix t cs" "?K t = Some g" by blast
    then show ?thesis using cs(1) by (auto simp: strict_suffix_def suffix_Cons)
  next
    assume "?K s1 = Some g"
    then show ?thesis by blast
  qed
  then obtain t where t: "suffix t s1" "?K t = Some g" by blast
  from many1_Some [OF t(2)] obtain t1 where "modal (\<lambda>r. Some t) t1 = Some g" by blast
  from modal_Some [OF this] have "g = t" by auto
  moreover from s1(1) t(1) have "strict_suffix t line" by (meson suffix_order.le_less_trans)
  ultimately show ?thesis using m by (simp add: matched_not_Nil)
qed

lemma ciEq_letter_not_space:
  assumes "ciEq p c" "p = 0x41 \<or> p = 0x42 \<or> p = 0x43 \<or> p = 0x4A"
  shows "\<not> isSpace c"
proof
  assume sp: "isSpace c"
  then have "\<not> isLowerAZ c" by (auto simp: isSpace_def isLowerAZ_def word_le_nat_alt)
  then have "asciiUpper c = c" by (simp add: asciiUpper_def)
  moreover have "asciiUpper p = p" using assms(2) by (auto simp: asciiUpper_def isLowerAZ_def)
  ultimately have "c = p" using assms(1) by (simp add: ciEq_def)
  then show False using sp assms(2) by (auto simp: isSpace_def)
qed

lemma actionNames_first:
  "n \<in> set actionNames \<Longrightarrow> \<exists>p ps. n = p # ps \<and> (p = 0x41 \<or> p = 0x42 \<or> p = 0x43 \<or> p = 0x4A)"
  by (auto simp: actionNames_def js_def)

lemma actionPattern_Some:
  assumes "actionPattern Some start = Some r"
  shows "start \<noteq> [] \<and> \<not> isSpace (hd start) \<and> strict_suffix r start \<and> (r = [] \<or> isLineTerminator (hd r))"
proof -
  let ?K = "many1 isSpace (modal (many1 isSpace (many1 isDot Some)))"
  from assms have "alts (map litI actionNames) ?K start = Some r" by (simp add: actionPattern_def)
  from alts_Some [OF this] obtain n where n: "n \<in> set actionNames" "litI n ?K start = Some r" by auto
  from actionNames_first [OF n(1)] obtain p ps
    where p: "n = p # ps" "p = 0x41 \<or> p = 0x42 \<or> p = 0x43 \<or> p = 0x4A" by blast
  from litI_Some_hd [of p ps ?K start r] n(2) p(1) have hd: "start \<noteq> []" "ciEq p (hd start)" by simp_all
  from ciEq_letter_not_space [OF hd(2) p(2)] have nsp: "\<not> isSpace (hd start)" .
  have "n \<noteq> []" using p(1) by simp
  from litI_Some_strict [OF this n(2)] obtain s1 where s1: "strict_suffix s1 start" "?K s1 = Some r" by blast
  from many1_Some [OF s1(2)] obtain s2
    where s2: "strict_suffix s2 s1" "modal (many1 isSpace (many1 isDot Some)) s2 = Some r" by blast
  from modal_Some [OF s2(2)] obtain s3
    where s3: "strict_suffix s3 s2" "many1 isSpace (many1 isDot Some) s3 = Some r" by blast
  from many1_Some [OF s3(2)] obtain s4
    where s4: "strict_suffix s4 s3" "many1 isDot Some s4 = Some r" by blast
  from s4(2) have "cls isDot (many isDot Some) s4 = Some r" by (simp add: many1_def)
  from cls_Some [OF this] obtain c cs where cs: "s4 = c # cs" "many isDot Some cs = Some r" by blast
  then have r: "r = dropWhile isDot cs" by (simp add: many_Some_dropWhile)
  have "suffix r cs" unfolding r by (rule suffix_dropWhile)
  then have "strict_suffix r s4" using cs(1) by (simp add: suffix_strict_Cons)
  with s1(1) s2(1) s3(1) s4(1) have "strict_suffix r start"
    by (meson suffix_order.less_trans)
  moreover have "r = [] \<or> isLineTerminator (hd r)"
    unfolding r using hd_dropWhile [of isDot cs] by (auto simp: isDot_def)
  ultimately show ?thesis using hd(1) nsp by blast
qed

lemma actionMatch_Some:
  assumes "actionMatch line = Some m0"
  shows "\<exists>start r. suffix start line \<and> start \<noteq> [] \<and> \<not> isSpace (hd start) \<and> strict_suffix r start
            \<and> (r = [] \<or> isLineTerminator (hd r)) \<and> m0 = matched start r"
proof -
  from assms obtain start r where sr: "search (actionPattern Some) line = Some (start, r)"
    and m: "m0 = matched start r"
    by (auto simp: actionMatch_def split: option.splits)
  from search_Some [OF sr] have "suffix start line" "actionPattern Some start = Some r" by simp_all
  with actionPattern_Some [of start r] m show ?thesis by blast
qed

section \<open>Trimming, bullets and splitting\<close>

lemma trim_Nil: "trim [] = []"
  by (simp add: trim_def)

lemma dropWhile_last: "dropWhile P xs \<noteq> [] \<Longrightarrow> last (dropWhile P xs) = last xs"
  by (induction xs) (auto split: if_splits)

lemma dropWhile_fixed: "xs \<noteq> [] \<Longrightarrow> \<not> P (hd xs) \<Longrightarrow> dropWhile P xs = xs"
  by (cases xs) simp_all

lemma trim_hd_last:
  assumes "trim s \<noteq> []"
  shows "\<not> isSpace (hd (trim s)) \<and> \<not> isSpace (last (trim s))"
proof -
  let ?t = "dropWhile isSpace (rev s)"
  have t: "?t \<noteq> []"
  proof
    assume "?t = []"
    then have "trim s = dropWhile isSpace (rev [])" unfolding trim_def by (rule arg_cong)
    then have "trim s = []" by simp
    then show False using assms by simp
  qed
  then have "\<not> isSpace (hd ?t)" by (rule hd_dropWhile)
  moreover have "last (trim s) = last (rev ?t)"
    using assms unfolding trim_def by (rule dropWhile_last)
  moreover have "last (rev ?t) = hd ?t" using t by (simp add: last_rev)
  moreover have "\<not> isSpace (hd (trim s))"
    using assms unfolding trim_def by (rule hd_dropWhile)
  ultimately show ?thesis by simp
qed

lemma trim_fixed:
  assumes "s \<noteq> []" "\<not> isSpace (hd s)" "\<not> isSpace (last s)"
  shows "trim s = s"
proof -
  have "dropWhile isSpace (rev s) = rev s"
    using assms by (intro dropWhile_fixed) (simp_all add: hd_rev)
  then show ?thesis using assms by (simp add: trim_def dropWhile_fixed)
qed

lemma trim_idem: "trim (trim s) = trim s"
proof (cases "trim s = []")
  case True
  then show ?thesis by (simp add: trim_Nil)
next
  case False
  from trim_hd_last [OF False] False show ?thesis by (simp add: trim_fixed)
qed

lemma set_trim: "set (trim s) \<subseteq> set s"
  unfolding trim_def by (auto dest!: set_dropWhileD)

lemma stripBullet_eq:
  "stripBullet s = (case s of [] \<Rightarrow> [] | c # cs \<Rightarrow> if isBullet c then dropWhile isSpace cs else s)"
  by (cases s) (simp_all add: stripBullet_def cls_def many_Some_dropWhile)

lemma stripBullet_trimmed:
  assumes "1 < length s" "\<not> isSpace (hd s)" "\<not> isSpace (last s)"
  shows "stripBullet s \<noteq> [] \<and> \<not> isSpace (hd (stripBullet s)) \<and> \<not> isSpace (last (stripBullet s))"
proof -
  obtain c cs where s: "s = c # cs" "cs \<noteq> []" using assms(1) by (cases s) auto
  show ?thesis
  proof (cases "isBullet c")
    case False
    then show ?thesis using assms s by (simp add: stripBullet_eq)
  next
    case True
    then have e: "stripBullet s = dropWhile isSpace cs" using s by (simp add: stripBullet_eq)
    have "last cs \<in> set cs" "\<not> isSpace (last cs)" using s assms(3) by simp_all
    then have ne: "dropWhile isSpace cs \<noteq> []" by (auto simp: dropWhile_eq_Nil_conv)
    from hd_dropWhile [OF ne] dropWhile_last [OF ne] ne show ?thesis
      using e s assms(3) by simp
  qed
qed

lemma set_stripBullet: "set (stripBullet s) \<subseteq> set s"
  by (cases s) (auto simp: stripBullet_eq dest: set_dropWhileD)

lemma split_js_first: "\<exists>ws. split_js d s = takeWhile (\<lambda>c. c \<noteq> d) s # ws"
  by (induction s) auto

lemma split_js_sets: "l \<in> set (split_js d s) \<Longrightarrow> set l \<subseteq> set s \<and> d \<notin> set l"
proof (induction s arbitrary: l)
  case Nil
  then show ?case by simp
next
  case (Cons c cs)
  obtain w ws where w: "split_js d cs = w # ws" using split_js_first by blast
  then have "w \<in> set (split_js d cs)" "\<forall>v \<in> set ws. v \<in> set (split_js d cs)" by simp_all
  with Cons.IH have wI: "set w \<subseteq> set cs \<and> d \<notin> set w" "\<forall>v \<in> set ws. set v \<subseteq> set cs \<and> d \<notin> set v"
    by blast+
  show ?case
  proof (cases "c = d")
    case True
    then have "l = [] \<or> l = w \<or> l \<in> set ws" using Cons.prems w by auto
    then show ?thesis using wI by auto
  next
    case False
    then have "l = c # w \<or> l \<in> set ws" using Cons.prems w by auto
    then show ?thesis using wI False by auto
  qed
qed

lemma suffix_last: "suffix t s \<Longrightarrow> t \<noteq> [] \<Longrightarrow> last t = last s"
  by (auto simp: suffix_def)

lemma actionMatch_text:
  assumes "actionMatch line = Some m0"
  shows "m0 \<noteq> [] \<and> \<not> isSpace (hd m0)
         \<and> ((\<forall>c \<in> set line. isDot c) \<longrightarrow> \<not> isSpace (last line) \<longrightarrow> \<not> isSpace (last m0))"
proof -
  from actionMatch_Some [OF assms] obtain start r
    where a: "suffix start line" "start \<noteq> []" "\<not> isSpace (hd start)" "strict_suffix r start"
      "r = [] \<or> isLineTerminator (hd r)" "m0 = matched start r" by blast
  have ne: "m0 \<noteq> []" using a(4,6) by (simp add: matched_not_Nil)
  have app: "m0 @ r = start" using a(4,6) by (simp add: matched_append strict_suffix_def)
  then have "hd m0 = hd start" using ne by (metis hd_append2)
  moreover have "\<not> isSpace (last m0)" if dots: "\<forall>c \<in> set line. isDot c" and l: "\<not> isSpace (last line)"
  proof -
    have "set r \<subseteq> set line" using app a(1) by (auto simp: suffix_def)
    then have "r = []" using a(5) dots by (cases r) (auto simp: isDot_def)
    then have "m0 = start" using app by simp
    then show ?thesis using suffix_last [OF a(1,2)] l by simp
  qed
  ultimately show ?thesis using ne a(3) by simp
qed

lemma orOwner_not_Nil: "own \<noteq> [] \<Longrightarrow> orOwner cur own \<noteq> []"
  by (simp add: orOwner_def split: option.split)

lemma find_Some_mem: "List.find P xs = Some x \<Longrightarrow> x \<in> set xs"
  by (induction xs) (auto split: if_splits)

lemma resolveOwner_spec_not_Nil:
  assumes "[] \<notin> set attendees"
  shows "resolveOwner_spec lc line attendees \<noteq> []"
proof (cases "List.find (attendeeMatches lc line) attendees")
  case None
  then show ?thesis by (simp add: resolveOwner_spec_def defaultOwner_def js_def)
next
  case (Some name)
  from find_Some_mem [OF this] assms have "name \<noteq> []" by auto
  then show ?thesis using Some by (simp add: resolveOwner_spec_def)
qed

section \<open>One line at a time\<close>

lemma detectOwner_spec: "detectOwner lc line attendees = Inr (resolveOwner_spec lc line attendees)"
proof (induction attendees)
  case Nil
  show ?case by (simp add: resolveOwner_spec_def)
next
  case (Cons name rest)
  obtain ws where ws: "split_js 0x20 name = firstToken name # ws"
    unfolding firstToken_def using split_js_first by blast
  show ?case
  proof (cases "attendeeMatches lc line name")
    case True
    then show ?thesis using ws by (auto simp add: resolveOwner_spec_def attendeeMatches_def)
  next
    case False
    then show ?thesis using ws Cons.IH by (auto simp add: resolveOwner_spec_def attendeeMatches_def)
  qed
qed

lemma contentRule_Inr:
  "contentRule lc attendees line st =
     Inr (if inActionSection st \<and> length line > 10
          then pushItem \<lparr>item = stripBullet line,
                 owner = orOwner (currentOwner st) (resolveOwner_spec lc line attendees)\<rparr> st
          else st)"
  by (simp add: contentRule_def detectOwner_spec)

lemma contentAndStandalone_Inr:
  "contentAndStandalone lc attendees line st =
     Inr (standaloneRule line
           (if inActionSection st \<and> length line > 10
            then pushItem \<lparr>item = stripBullet line,
                   owner = orOwner (currentOwner st) (resolveOwner_spec lc line attendees)\<rparr> st
            else st))"
  by (simp add: contentAndStandalone_def contentRule_Inr)

lemma processLine_total: "\<exists>st'. processLine lc attendees raw st = Inr st'"
  by (simp add: processLine_def Let_def contentAndStandalone_Inr split: option.split)

lemma scanLines_total: "\<exists>st'. scanLines lc attendees raws st = Inr st'"
proof (induction raws arbitrary: st)
  case Nil
  show ?case by simp
next
  case (Cons raw raws)
  obtain st1 where "processLine lc attendees raw st = Inr st1"
    using processLine_total by blast
  then show ?case using Cons.IH [of st1] by simp
qed

text \<open>
  C7: extractActionItems is total. For every panel text and every list of attendee
  names it returns a list of items and never throws; on the empty text it returns the
  empty list.
\<close>

theorem extractActionItems_total:
  "(\<exists>result. extractActionItems lc panelText meetingTitle meetingDate attendees = Inr result)
   \<and> extractActionItems lc [] meetingTitle meetingDate attendees = Inr []"
proof
  obtain st where "scanLines lc attendees (split_js 0xA panelText) initialState = Inr st"
    using scanLines_total by blast
  then show "\<exists>result. extractActionItems lc panelText meetingTitle meetingDate attendees = Inr result"
    by (simp add: extractActionItems_def)
  show "extractActionItems lc [] meetingTitle meetingDate attendees = Inr []"
    by (simp add: extractActionItems_def processLine_def trim_Nil initialState_def)
qed

lemma processLine_outside:
  assumes "\<not> inActionSection st" and "\<not> someTest sectionPatterns (trim raw)"
  shows "processLine lc attendees raw st =
           Inr (if trim raw = [] then st else standaloneRule (trim raw) st)"
  using assms
  by (simp add: processLine_def Let_def contentAndStandalone_Inr split: option.split)

lemma standaloneRule_inside: "inActionSection st \<Longrightarrow> standaloneRule line st = st"
  by (simp add: standaloneRule_def)

lemma standaloneRule_no_match: "actionMatch line = None \<Longrightarrow> standaloneRule line st = st"
  by (simp add: standaloneRule_def)

lemma scanLines_no_header_no_sentence:
  assumes "\<forall>raw \<in> set raws. \<not> someTest sectionPatterns (trim raw) \<and> actionMatch (trim raw) = None"
    and "\<not> inActionSection st"
  shows "scanLines lc attendees raws st = Inr st"
  using assms
proof (induction raws)
  case Nil
  show ?case by simp
next
  case (Cons raw raws)
  then have "processLine lc attendees raw st = Inr st"
    by (simp add: processLine_outside standaloneRule_no_match)
  then show ?case using Cons by simp
qed

text \<open>
  C1: when no line of the panel text, once trimmed, matches a header pattern or the
  name-plus-modal pattern, extractActionItems returns the empty list, for every
  attendee list.
\<close>

theorem no_header_no_sentence_yields_nothing:
  assumes "\<forall>raw \<in> set (split_js 0xA panelText).
             \<not> someTest sectionPatterns (trim raw) \<and> actionMatch (trim raw) = None"
  shows "extractActionItems lc panelText meetingTitle meetingDate attendees = Inr []"
  using scanLines_no_header_no_sentence [OF assms, of initialState lc attendees]
  by (simp add: extractActionItems_def initialState_def)

theorem no_header_no_sentence_yields_nothing_witness:
  "list_all (\<lambda>raw. \<not> someTest sectionPatterns (trim raw) \<and> actionMatch (trim raw) = None)
      (split_js 0xA quietText)
   \<and> extractActionItems asciiLowerCase quietText [] [] [js ''Blake Corbit''] = Inr []"
proof -
  have h: "list_all (\<lambda>raw. \<not> someTest sectionPatterns (trim raw) \<and> actionMatch (trim raw) = None)
      (split_js 0xA quietText)"
    by code_simp
  then have "\<forall>raw \<in> set (split_js 0xA quietText).
             \<not> someTest sectionPatterns (trim raw) \<and> actionMatch (trim raw) = None"
    by (simp add: list_all_iff)
  from no_header_no_sentence_yields_nothing [OF this] h show ?thesis by simp
qed

section \<open>The rules of the loop body\<close>

lemma pushItem_fields [simp]:
  "inActionSection (pushItem x st) = inActionSection st"
  "currentOwner (pushItem x st) = currentOwner st"
  "items (pushItem x st) = items st @ [x]"
  by (simp_all add: pushItem_def)

lemma standaloneRule_fields [simp]:
  "inActionSection (standaloneRule line st) = inActionSection st"
  "currentOwner (standaloneRule line st) = currentOwner st"
  by (simp_all add: standaloneRule_def split: option.split)

lemma standaloneOnly_fields [simp]:
  "inActionSection (standaloneOnly st raw) = inActionSection st"
  "currentOwner (standaloneOnly st raw) = currentOwner st"
  by (simp_all add: standaloneOnly_def)

lemma no_header_Nil: "\<not> someTest sectionPatterns []"
  by (simp add: someTest_def sectionPatterns_def regexTest_def js_def cls_def)

lemma no_end_Nil: "\<not> someTest endPatterns []"
  by (simp add: someTest_def endPatterns_def markdownHeading_def regexTest_def js_def cls_def)

lemma processLine_header:
  assumes "someTest sectionPatterns (trim raw)"
  shows "processLine lc attendees raw st = Inr (st\<lparr>inActionSection := True\<rparr>)"
proof -
  have "trim raw \<noteq> []" using assms no_header_Nil by auto
  then show ?thesis using assms by (simp add: processLine_def)
qed

lemma processLine_end:
  assumes "\<not> someTest sectionPatterns (trim raw)" "someTest endPatterns (trim raw)" "inActionSection st"
  shows "processLine lc attendees raw st = Inr (st\<lparr>inActionSection := False\<rparr>)"
proof -
  have "trim raw \<noteq> []" using assms(2) no_end_Nil by auto
  then show ?thesis using assms by (simp add: processLine_def)
qed

lemma processLine_prefix:
  assumes "trim raw \<noteq> []" "\<not> someTest sectionPatterns (trim raw)" "\<not> someTest endPatterns (trim raw)"
    "inActionSection st" "ownerMatch (trim raw) = Some (name, whole)"
  shows "processLine lc attendees raw st =
           Inr (if trim (drop (length whole) (trim raw)) \<noteq> []
                then pushItem \<lparr>item = trim (drop (length whole) (trim raw)), owner = name\<rparr>
                       (st\<lparr>currentOwner := Some name\<rparr>)
                else st\<lparr>currentOwner := Some name\<rparr>)"
  using assms by (simp add: processLine_def Let_def)

lemma processLine_content:
  assumes "trim raw \<noteq> []" "\<not> someTest sectionPatterns (trim raw)" "\<not> someTest endPatterns (trim raw)"
    "inActionSection st" "ownerMatch (trim raw) = None"
  shows "processLine lc attendees raw st =
           Inr (if length (trim raw) > 10
                then pushItem \<lparr>item = stripBullet (trim raw),
                       owner = orOwner (currentOwner st) (resolveOwner_spec lc (trim raw) attendees)\<rparr> st
                else st)"
  using assms by (simp add: processLine_def Let_def contentAndStandalone_Inr standaloneRule_inside)

lemma processLine_keeps_owner:
  assumes "processLine lc attendees raw st = Inr st'"
    and "\<not> inActionSection st \<or> ownerMatch (trim raw) = None \<or> someTest sectionPatterns (trim raw)
         \<or> someTest endPatterns (trim raw)"
  shows "currentOwner st' = currentOwner st"
  using assms
  by (auto simp: processLine_def Let_def contentAndStandalone_Inr split: if_splits option.splits)

lemma scanLines_outside:
  assumes "\<not> inActionSection st" "\<forall>raw \<in> set raws. \<not> someTest sectionPatterns (trim raw)"
  shows "scanLines lc attendees raws st = Inr (foldl standaloneOnly st raws)"
  using assms
proof (induction raws arbitrary: st)
  case Nil
  show ?case by simp
next
  case (Cons raw raws)
  then have "processLine lc attendees raw st = Inr (standaloneOnly st raw)"
    by (simp add: processLine_outside standaloneOnly_def)
  moreover have "\<not> inActionSection (standaloneOnly st raw)" using Cons.prems(1) by simp
  ultimately show ?case using Cons by simp
qed

lemma foldl_standaloneOnly_fields [simp]:
  "inActionSection (foldl standaloneOnly st raws) = inActionSection st"
  "currentOwner (foldl standaloneOnly st raws) = currentOwner st"
  by (induction raws arbitrary: st) simp_all

lemma markdownHeading_hash: "regexTest markdownHeading l \<Longrightarrow> \<exists>cs. l = 0x23 # cs"
  by (cases l) (auto simp: regexTest_def markdownHeading_def cls_def split: if_splits)

lemma hash_no_header: "\<not> someTest sectionPatterns (0x23 # cs)"
  by (simp add: someTest_def sectionPatterns_def regexTest_def js_def cls_def ciEq_def
      asciiUpper_def isLowerAZ_def)

lemma markdownHeading_end: "regexTest markdownHeading l \<Longrightarrow> someTest endPatterns l"
  by (simp add: someTest_def endPatterns_def)

text \<open>
  C8: while the scan is inside a section, a markdown heading line (one to three
  \<^verbatim>\<open>#\<close> and a whitespace unit, such as \<^verbatim>\<open>## Summary\<close>) closes the section
  and pushes nothing; as long as no header line follows, the scan stays outside and the
  lines after the heading go through the standalone rule only, so the owner-prefix and
  in-section content rules extract nothing from them.
\<close>

theorem markdown_heading_closes_section:
  assumes "regexTest markdownHeading (trim raw)" and "inActionSection st"
    and "\<forall>later \<in> set raws. \<not> someTest sectionPatterns (trim later)"
  shows "processLine lc attendees raw st = Inr (st\<lparr>inActionSection := False\<rparr>)
       \<and> scanLines lc attendees (raw # raws) st =
           Inr (foldl standaloneOnly (st\<lparr>inActionSection := False\<rparr>) raws)
       \<and> \<not> inActionSection (foldl standaloneOnly (st\<lparr>inActionSection := False\<rparr>) raws)"
proof -
  from markdownHeading_hash [OF assms(1)] have "\<not> someTest sectionPatterns (trim raw)"
    using hash_no_header by auto
  with markdownHeading_end [OF assms(1)] assms(2)
  have step: "processLine lc attendees raw st = Inr (st\<lparr>inActionSection := False\<rparr>)"
    by (rule processLine_end [rotated])
  have "scanLines lc attendees raws (st\<lparr>inActionSection := False\<rparr>) =
          Inr (foldl standaloneOnly (st\<lparr>inActionSection := False\<rparr>) raws)"
    by (rule scanLines_outside) (simp_all add: assms(3))
  with step show ?thesis by simp
qed

theorem markdown_heading_closes_section_witness:
  "regexTest markdownHeading (trim (js ''## Summary'')) \<and> inActionSection insideState
   \<and> list_all (\<lambda>later. \<not> someTest sectionPatterns (trim later)) afterHeading
   \<and> processLine asciiLowerCase [] (js ''## Summary'') insideState = Inr initialState
   \<and> scanLines asciiLowerCase [] (js ''## Summary'' # afterHeading) insideState =
       Inr \<lparr>inActionSection = False, currentOwner = None,
            items = [\<lparr>item = js ''Jacob to review the contract'', owner = js ''Jacob''\<rparr>]\<rparr>"
proof -
  have h1: "regexTest markdownHeading (trim (js ''## Summary''))" by code_simp
  have h2: "inActionSection insideState" by (simp add: insideState_def)
  have h3: "list_all (\<lambda>later. \<not> someTest sectionPatterns (trim later)) afterHeading" by code_simp
  then have h3': "\<forall>later \<in> set afterHeading. \<not> someTest sectionPatterns (trim later)"
    by (simp add: list_all_iff)
  have e: "insideState\<lparr>inActionSection := False\<rparr> = initialState"
    by (simp add: insideState_def initialState_def)
  have v: "foldl standaloneOnly initialState afterHeading =
       \<lparr>inActionSection = False, currentOwner = None,
            items = [\<lparr>item = js ''Jacob to review the contract'', owner = js ''Jacob''\<rparr>]\<rparr>"
    by code_simp
  note t = markdown_heading_closes_section [OF h1 h2 h3', of asciiLowerCase "[]", unfolded e v]
  from t h1 h2 h3 show ?thesis by blast
qed


text \<open>
  C2, as amended: a non-blank line that matches the owner-prefix pattern and is neither
  a header nor a terminator line sets currentOwner to the captured name only when the
  scan is inside a section, and then pushes the trimmed text after the colon with that
  owner exactly when this text is not empty. Outside a section the line leaves
  currentOwner as it was and only the standalone rule sees it. Any line to which the
  owner-prefix rule does not apply leaves currentOwner unchanged.
\<close>

theorem owner_prefix_sets_owner_inside_only:
  assumes "trim raw \<noteq> []" and "\<not> someTest sectionPatterns (trim raw)"
    and "\<not> someTest endPatterns (trim raw)"
    and "ownerMatch (trim raw) = Some (name, whole)"
  shows "(inActionSection st \<longrightarrow>
            processLine lc attendees raw st =
              Inr (if trim (drop (length whole) (trim raw)) \<noteq> []
                   then pushItem \<lparr>item = trim (drop (length whole) (trim raw)), owner = name\<rparr>
                          (st\<lparr>currentOwner := Some name\<rparr>)
                   else st\<lparr>currentOwner := Some name\<rparr>))
       \<and> (\<not> inActionSection st \<longrightarrow>
            processLine lc attendees raw st = Inr (standaloneRule (trim raw) st)
            \<and> currentOwner (standaloneRule (trim raw) st) = currentOwner st)
       \<and> (\<forall>later st1 st2.
            processLine lc attendees later st1 = Inr st2
            \<and> (\<not> inActionSection st1 \<or> ownerMatch (trim later) = None
                \<or> someTest sectionPatterns (trim later) \<or> someTest endPatterns (trim later))
            \<longrightarrow> currentOwner st2 = currentOwner st1)"
proof (intro conjI impI allI)
  assume i: "inActionSection st"
  show "processLine lc attendees raw st =
              Inr (if trim (drop (length whole) (trim raw)) \<noteq> []
                   then pushItem \<lparr>item = trim (drop (length whole) (trim raw)), owner = name\<rparr>
                          (st\<lparr>currentOwner := Some name\<rparr>)
                   else st\<lparr>currentOwner := Some name\<rparr>)"
    by (rule processLine_prefix [OF assms(1-3) i assms(4)])
next
  assume "\<not> inActionSection st"
  then show "processLine lc attendees raw st = Inr (standaloneRule (trim raw) st)"
    using assms(1,2) by (simp add: processLine_outside)
next
  show "currentOwner (standaloneRule (trim raw) st) = currentOwner st" by simp
next
  fix later st1 st2
  assume "processLine lc attendees later st1 = Inr st2
            \<and> (\<not> inActionSection st1 \<or> ownerMatch (trim later) = None
                \<or> someTest sectionPatterns (trim later) \<or> someTest endPatterns (trim later))"
  then show "currentOwner st2 = currentOwner st1"
    using processLine_keeps_owner by blast
qed

theorem owner_prefix_sets_owner_inside_only_witness:
  "trim (js ''Blake: send the deck'') \<noteq> []
   \<and> \<not> someTest sectionPatterns (trim (js ''Blake: send the deck''))
   \<and> \<not> someTest endPatterns (trim (js ''Blake: send the deck''))
   \<and> ownerMatch (trim (js ''Blake: send the deck'')) = Some (js ''Blake'', js ''Blake:'')
   \<and> inActionSection insideState
   \<and> processLine asciiLowerCase [] (js ''Blake: send the deck'') insideState =
       Inr \<lparr>inActionSection = True, currentOwner = Some (js ''Blake''),
            items = [\<lparr>item = js ''send the deck'', owner = js ''Blake''\<rparr>]\<rparr>"
proof -
  let ?raw = "js ''Blake: send the deck''"
  have h1: "trim ?raw \<noteq> []" by code_simp
  have h2: "\<not> someTest sectionPatterns (trim ?raw)" by code_simp
  have h3: "\<not> someTest endPatterns (trim ?raw)" by code_simp
  have h4: "ownerMatch (trim ?raw) = Some (js ''Blake'', js ''Blake:'')" by code_simp
  have h5: "inActionSection insideState" by (simp add: insideState_def)
  have v: "(if trim (drop (length (js ''Blake:'')) (trim ?raw)) \<noteq> []
            then pushItem \<lparr>item = trim (drop (length (js ''Blake:'')) (trim ?raw)),
                   owner = js ''Blake''\<rparr> (insideState\<lparr>currentOwner := Some (js ''Blake'')\<rparr>)
            else insideState\<lparr>currentOwner := Some (js ''Blake'')\<rparr>) =
           \<lparr>inActionSection = True, currentOwner = Some (js ''Blake''),
            items = [\<lparr>item = js ''send the deck'', owner = js ''Blake''\<rparr>]\<rparr>"
    by code_simp
  note t = owner_prefix_sets_owner_inside_only [OF h1 h2 h3 h4, of insideState asciiLowerCase "[]",
      THEN conjunct1, rule_format, OF h5, unfolded v]
  from t h1 h2 h3 h4 h5 show ?thesis by blast
qed

text \<open>
  C2 as stated fails: outside a section the owner-prefix line \<^verbatim>\<open>Jacob: send the deck\<close>
  leaves currentOwner unset, and a later in-section line gets the default owner.
\<close>

theorem owner_prefix_outside_section_counterexample:
  "ownerMatch (trim (js ''Jacob: send the deck'')) = Some (js ''Jacob'', js ''Jacob:'')
   \<and> processLine asciiLowerCase [] (js ''Jacob: send the deck'') initialState = Inr initialState
   \<and> currentOwner initialState = None
   \<and> extractActionItems asciiLowerCase
        (js ''Jacob: send the deck'' @ [0xA] @ js ''Next Steps'' @ [0xA] @ js ''call the vendor today'')
        [] [] [] =
       Inr [\<lparr>item = js ''call the vendor today'', owner = js ''Blake''\<rparr>]"
  by code_simp

lemma processLine_at_most_one:
  assumes "processLine lc attendees raw st = Inr st'"
  shows "items st' = items st \<or> (\<exists>x. items st' = items st @ [x])"
  using assms
  by (auto simp: processLine_def Let_def contentAndStandalone_Inr standaloneRule_def
      split: if_splits option.splits)

text \<open>
  C3, as amended: a non-blank line that is no header and matches the name-plus-modal
  pattern pushes one item through the standalone rule only while the scan is outside a
  section; its text is the whole match and its owner is the one or two leading words of
  the line when a modal follows them, and the default owner otherwise. Inside a section
  the standalone rule pushes nothing: the line yields what the owner-prefix or content
  rule yields, and nothing for a line of at most 10 units without owner prefix. So no
  line pushes more than one item.
\<close>

theorem standalone_rule_outside_only:
  assumes "trim raw \<noteq> []" and "\<not> someTest sectionPatterns (trim raw)"
    and "actionMatch (trim raw) = Some sentence"
  shows "(\<not> inActionSection st \<longrightarrow>
            processLine lc attendees raw st =
              Inr (pushItem \<lparr>item = sentence,
                     owner = (case ownerNameMatch (trim raw) of None \<Rightarrow> defaultOwner | Some g \<Rightarrow> g)\<rparr> st))
       \<and> (inActionSection st \<longrightarrow>
            standaloneRule (trim raw) st = st
            \<and> contentAndStandalone lc attendees (trim raw) st = contentRule lc attendees (trim raw) st)
       \<and> (inActionSection st \<and> \<not> someTest endPatterns (trim raw) \<and> ownerMatch (trim raw) = None \<longrightarrow>
            processLine lc attendees raw st =
              Inr (if length (trim raw) > 10
                   then pushItem \<lparr>item = stripBullet (trim raw),
                          owner = orOwner (currentOwner st)
                                    (resolveOwner_spec lc (trim raw) attendees)\<rparr> st
                   else st))
       \<and> (\<exists>st'. processLine lc attendees raw st = Inr st'
                  \<and> (items st' = items st \<or> (\<exists>x. items st' = items st @ [x])))"
proof (intro conjI impI)
  assume "\<not> inActionSection st"
  then show "processLine lc attendees raw st =
              Inr (pushItem \<lparr>item = sentence,
                     owner = (case ownerNameMatch (trim raw) of None \<Rightarrow> defaultOwner | Some g \<Rightarrow> g)\<rparr> st)"
    using assms by (simp add: processLine_outside standaloneRule_def)
next
  assume "inActionSection st"
  then show "standaloneRule (trim raw) st = st" by (rule standaloneRule_inside)
next
  assume "inActionSection st"
  then show "contentAndStandalone lc attendees (trim raw) st = contentRule lc attendees (trim raw) st"
    by (simp add: contentAndStandalone_Inr contentRule_Inr standaloneRule_inside)
next
  assume "inActionSection st \<and> \<not> someTest endPatterns (trim raw) \<and> ownerMatch (trim raw) = None"
  then show "processLine lc attendees raw st =
              Inr (if length (trim raw) > 10
                   then pushItem \<lparr>item = stripBullet (trim raw),
                          owner = orOwner (currentOwner st)
                                    (resolveOwner_spec lc (trim raw) attendees)\<rparr> st
                   else st)"
    using assms(1,2) by (simp add: processLine_content)
next
  obtain st' where "processLine lc attendees raw st = Inr st'"
    using processLine_total by blast
  then show "\<exists>st'. processLine lc attendees raw st = Inr st'
                  \<and> (items st' = items st \<or> (\<exists>x. items st' = items st @ [x]))"
    using processLine_at_most_one by blast
qed

theorem standalone_rule_outside_only_witness:
  "trim (js ''Jacob to review the contract by Friday'') \<noteq> []
   \<and> \<not> someTest sectionPatterns (trim (js ''Jacob to review the contract by Friday''))
   \<and> actionMatch (trim (js ''Jacob to review the contract by Friday''))
       = Some (js ''Jacob to review the contract by Friday'')
   \<and> \<not> inActionSection initialState
   \<and> processLine asciiLowerCase [] (js ''Jacob to review the contract by Friday'') initialState =
       Inr \<lparr>inActionSection = False, currentOwner = None,
            items = [\<lparr>item = js ''Jacob to review the contract by Friday'', owner = js ''Jacob''\<rparr>]\<rparr>"
proof -
  let ?raw = "js ''Jacob to review the contract by Friday''"
  have h1: "trim ?raw \<noteq> []" by code_simp
  have h2: "\<not> someTest sectionPatterns (trim ?raw)" by code_simp
  have h3: "actionMatch (trim ?raw) = Some ?raw" by code_simp
  have h4: "\<not> inActionSection initialState" by (simp add: initialState_def)
  have v: "pushItem \<lparr>item = ?raw,
             owner = (case ownerNameMatch (trim ?raw) of None \<Rightarrow> defaultOwner | Some g \<Rightarrow> g)\<rparr>
             initialState =
           \<lparr>inActionSection = False, currentOwner = None,
            items = [\<lparr>item = ?raw, owner = js ''Jacob''\<rparr>]\<rparr>"
    by code_simp
  note t = standalone_rule_outside_only [OF h1 h2 h3, of initialState asciiLowerCase "[]",
      THEN conjunct1, rule_format, OF h4, unfolded v]
  from t h1 h2 h3 h4 show ?thesis by blast
qed

text \<open>
  C3 as stated fails: inside a section \<^verbatim>\<open>Jacob to review the contract\<close> yields the
  single item of the content rule, with the default owner, and the short line
  \<^verbatim>\<open>Al to go\<close> yields nothing; outside a section the owner of
  \<^verbatim>\<open>Please ask Jacob to review\<close> is the default owner, not the name the pattern matched.
\<close>

theorem standalone_rule_inside_section_counterexample:
  "actionMatch (trim (js ''Jacob to review the contract'')) = Some (js ''Jacob to review the contract'')
   \<and> processLine asciiLowerCase [] (js ''Jacob to review the contract'') insideState =
       Inr \<lparr>inActionSection = True, currentOwner = None,
            items = [\<lparr>item = js ''Jacob to review the contract'', owner = js ''Blake''\<rparr>]\<rparr>
   \<and> actionMatch (trim (js ''Al to go'')) = Some (js ''Al to go'')
   \<and> processLine asciiLowerCase [] (js ''Al to go'') insideState = Inr insideState
   \<and> actionMatch (trim (js ''Please ask Jacob to review'')) = Some (js ''Jacob to review'')
   \<and> processLine asciiLowerCase [] (js ''Please ask Jacob to review'') initialState =
       Inr \<lparr>inActionSection = False, currentOwner = None,
            items = [\<lparr>item = js ''Jacob to review'', owner = js ''Blake''\<rparr>]\<rparr>"
  by code_simp

text \<open>
  C9: the owner that the content rule infers is the full name of the first attendee, in
  list order, whose first token matches the line, and the default owner when there is
  none. With the attendees Jenna Smith and Cole Diaz and no carried owner, the in-section
  line \<^verbatim>\<open>Jenna will send invites\<close> gets the owner \<^verbatim>\<open>Jenna Smith\<close>.
\<close>

theorem attendee_first_match_wins:
  "detectOwner lc line attendees = Inr (resolveOwner_spec lc line attendees)
   \<and> processLine asciiLowerCase [js ''Jenna Smith'', js ''Cole Diaz''] (js ''Jenna will send invites'')
        \<lparr>inActionSection = True, currentOwner = None, items = []\<rparr> =
       Inr \<lparr>inActionSection = True, currentOwner = None,
            items = [\<lparr>item = js ''Jenna will send invites'', owner = js ''Jenna Smith''\<rparr>]\<rparr>"
proof
  show "detectOwner lc line attendees = Inr (resolveOwner_spec lc line attendees)"
    by (rule detectOwner_spec)
  show "processLine asciiLowerCase [js ''Jenna Smith'', js ''Cole Diaz''] (js ''Jenna will send invites'')
        \<lparr>inActionSection = True, currentOwner = None, items = []\<rparr> =
       Inr \<lparr>inActionSection = True, currentOwner = None,
            items = [\<lparr>item = js ''Jenna will send invites'', owner = js ''Jenna Smith''\<rparr>]\<rparr>"
    by code_simp
qed

theorem attendee_first_match_wins_witness:
  "detectOwner asciiLowerCase (js ''Cole will ask Jenna to send invites'')
     [js ''Al Stone'', js ''Jenna Smith'', js ''Cole Diaz''] = Inr (js ''Jenna Smith'')"
proof -
  have v: "resolveOwner_spec asciiLowerCase (js ''Cole will ask Jenna to send invites'')
     [js ''Al Stone'', js ''Jenna Smith'', js ''Cole Diaz''] = js ''Jenna Smith''"
    by code_simp
  from attendee_first_match_wins [THEN conjunct1, of asciiLowerCase
      "js ''Cole will ask Jenna to send invites''" "[js ''Al Stone'', js ''Jenna Smith'', js ''Cole Diaz'']",
      unfolded v]
  show ?thesis .
qed

section \<open>Two invocations\<close>

lemma lineStep_deterministic:
  assumes "lineStep lc attendees raw st s1" "lineStep lc attendees raw st s2"
  shows "s1 = s2"
  using assms by (auto elim!: lineStep.cases)

lemma scanSteps_deterministic:
  assumes "scanSteps lc attendees raws st s1" "scanSteps lc attendees raws st s2"
  shows "s1 = s2"
  using assms
proof (induction arbitrary: s2 rule: scanSteps.induct)
  case (endOfLines st)
  then show ?case by (auto elim: scanSteps.cases)
next
  case (nextLine raw st st1 raws st2)
  from nextLine.prems obtain t1 where t: "lineStep lc attendees raw st t1" "scanSteps lc attendees raws t1 s2"
    by (auto elim: scanSteps.cases)
  from lineStep_deterministic [OF nextLine.hyps(1) t(1)] have "t1 = st1" by simp
  with t(2) nextLine.IH show ?case by simp
qed

lemma dedupSteps_deterministic:
  assumes "dedupSteps lc seen xs ys" "dedupSteps lc seen xs zs"
  shows "ys = zs"
  using assms
proof (induction arbitrary: zs rule: dedupSteps.induct)
  case (finished seen)
  then show ?case by (auto elim: dedupSteps.cases)
next
  case (seenBefore x seen xs ys)
  from seenBefore.prems seenBefore.hyps(1) have "dedupSteps lc seen xs zs"
    by (auto elim: dedupSteps.cases)
  then show ?case by (rule seenBefore.IH)
next
  case (firstSeen x seen xs ys)
  from firstSeen.prems firstSeen.hyps(1) obtain zs' where
    "zs = x # zs'" "dedupSteps lc (insert (dedupKey lc x) seen) xs zs'"
    by (auto elim: dedupSteps.cases)
  then show ?case using firstSeen.IH by simp
qed

lemma lineStep_processLine:
  "lineStep lc attendees raw st st' \<longleftrightarrow> processLine lc attendees raw st = Inr st'"
proof
  assume "lineStep lc attendees raw st st'"
  then show "processLine lc attendees raw st = Inr st'"
    by cases
      (simp_all add: processLine_def Let_def contentAndStandalone_def contentRule_def
        standaloneRule_def split: option.split)
next
  assume p: "processLine lc attendees raw st = Inr st'"
  show "lineStep lc attendees raw st st'"
  proof (cases "trim raw = []")
    case True
    with p show ?thesis by (auto simp: processLine_def intro: lineStep.blank)
  next
    case ne: False
    show ?thesis
    proof (cases "someTest sectionPatterns (trim raw)")
      case True
      with p ne show ?thesis by (auto simp: processLine_def intro: lineStep.header)
    next
      case nh: False
      show ?thesis
      proof (cases "inActionSection st")
        case False
        with p ne nh have "st' = standaloneRule (trim raw) st" by (simp add: processLine_outside)
        with False ne nh show ?thesis
          by (cases "actionMatch (trim raw)")
            (auto simp: standaloneRule_def intro: lineStep.standalone lineStep.nothing)
      next
        case inside: True
        show ?thesis
        proof (cases "someTest endPatterns (trim raw)")
          case True
          with p ne nh inside show ?thesis
            by (auto simp: processLine_def intro: lineStep.terminator)
        next
          case ne': False
          show ?thesis
          proof (cases "ownerMatch (trim raw)")
            case None
            have d: "detectOwner lc (trim raw) attendees = Inr (resolveOwner_spec lc (trim raw) attendees)"
              by (rule detectOwner_spec)
            from p processLine_content [OF ne nh ne' inside None, of lc attendees]
            have "st' = (if length (trim raw) > 10
                then pushItem \<lparr>item = stripBullet (trim raw),
                       owner = orOwner (currentOwner st) (resolveOwner_spec lc (trim raw) attendees)\<rparr> st
                else st)" by simp
            then show ?thesis
              using ne nh ne' inside None d
              by (auto intro: lineStep.content lineStep.tooShort)
          next
            case (Some pr)
            obtain m1 m0 where pr: "pr = (m1, m0)" by (cases pr)
            from p processLine_prefix [OF ne nh ne' inside Some [unfolded pr], of lc attendees]
            have "st' = (if trim (drop (length m0) (trim raw)) \<noteq> []
                then pushItem \<lparr>item = trim (drop (length m0) (trim raw)), owner = m1\<rparr>
                       (st\<lparr>currentOwner := Some m1\<rparr>)
                else st\<lparr>currentOwner := Some m1\<rparr>)" by simp
            then show ?thesis
              using ne nh ne' inside Some pr
              by (auto intro: lineStep.ownerWithText lineStep.ownerAlone)
          qed
        qed
      qed
    qed
  qed
qed

lemma scanSteps_scanLines:
  "scanSteps lc attendees raws st st' \<longleftrightarrow> scanLines lc attendees raws st = Inr st'"
proof (induction raws arbitrary: st)
  case Nil
  show ?case by (auto intro: scanSteps.endOfLines elim: scanSteps.cases)
next
  case (Cons raw raws)
  show ?case
  proof
    assume "scanSteps lc attendees (raw # raws) st st'"
    then obtain st1 where "lineStep lc attendees raw st st1" "scanSteps lc attendees raws st1 st'"
      by (auto elim: scanSteps.cases)
    then show "scanLines lc attendees (raw # raws) st = Inr st'"
      using Cons.IH by (simp add: lineStep_processLine)
  next
    assume s: "scanLines lc attendees (raw # raws) st = Inr st'"
    obtain st1 where st1: "processLine lc attendees raw st = Inr st1"
      using processLine_total by blast
    with s have "scanLines lc attendees raws st1 = Inr st'" by simp
    then have "scanSteps lc attendees raws st1 st'" using Cons.IH by simp
    moreover have "lineStep lc attendees raw st st1" using st1 by (simp add: lineStep_processLine)
    ultimately show "scanSteps lc attendees (raw # raws) st st'" by (rule scanSteps.nextLine [rotated])
  qed
qed

lemma dedupSteps_dedup: "dedupSteps lc seen xs ys \<longleftrightarrow> ys = dedup lc seen xs"
proof
  assume "dedupSteps lc seen xs ys"
  then show "ys = dedup lc seen xs" by induction simp_all
next
  assume "ys = dedup lc seen xs"
  then show "dedupSteps lc seen xs ys"
    by (induction xs arbitrary: seen ys) (auto intro: dedupSteps.intros)
qed



section \<open>The carried owner across sections\<close>

lemma processLine_owner_not_reset:
  assumes "processLine lc attendees raw st = Inr st'" "currentOwner st \<noteq> None"
  shows "currentOwner st' \<noteq> None"
  using assms
  by (auto simp: processLine_def Let_def contentAndStandalone_Inr split: if_splits option.splits)

lemma scanLines_owner_not_reset:
  assumes "scanLines lc attendees raws st = Inr st'" "currentOwner st \<noteq> None"
  shows "currentOwner st' \<noteq> None"
  using assms
proof (induction raws arbitrary: st)
  case Nil
  then show ?case by simp
next
  case (Cons raw raws)
  obtain st1 where st1: "processLine lc attendees raw st = Inr st1"
    using processLine_total by blast
  have "currentOwner st1 \<noteq> None" by (rule processLine_owner_not_reset [OF st1 Cons.prems(2)])
  moreover from Cons.prems(1) st1 have "scanLines lc attendees raws st1 = Inr st'" by simp
  ultimately show ?case by (rule Cons.IH [rotated])
qed

lemma scanLines_keeps_owner:
  assumes "scanLines lc attendees raws st = Inr st'"
    and "\<forall>raw \<in> set raws. ownerMatch (trim raw) = None \<or> someTest sectionPatterns (trim raw)
           \<or> someTest endPatterns (trim raw)"
  shows "currentOwner st' = currentOwner st"
  using assms
proof (induction raws arbitrary: st)
  case Nil
  then show ?case by simp
next
  case (Cons raw raws)
  obtain st1 where st1: "processLine lc attendees raw st = Inr st1"
    using processLine_total by blast
  have "currentOwner st1 = currentOwner st"
    by (rule processLine_keeps_owner [OF st1]) (use Cons.prems(2) in auto)
  moreover from Cons.prems(1) st1 have "scanLines lc attendees raws st1 = Inr st'" by simp
  then have "currentOwner st' = currentOwner st1" by (rule Cons.IH) (use Cons.prems(2) in auto)
  ultimately show ?case by simp
qed

lemma processLine_ownerSet:
  assumes "processLine lc attendees raw st = Inr st'" "ownerSet st"
  shows "ownerSet st'"
proof (cases "currentOwner st' = currentOwner st")
  case True
  then show ?thesis using assms(2) by (simp add: ownerSet_def)
next
  case False
  then obtain m1 m0 where "ownerMatch (trim raw) = Some (m1, m0)" "currentOwner st' = Some m1"
    using assms(1)
    by (auto simp: processLine_def Let_def contentAndStandalone_Inr split: if_splits option.splits)
  then show ?thesis using ownerMatch_group_not_Nil by (auto simp: ownerSet_def)
qed

lemma scanLines_ownerSet:
  assumes "scanLines lc attendees raws st = Inr st'" "ownerSet st"
  shows "ownerSet st'"
  using assms
proof (induction raws arbitrary: st)
  case Nil
  then show ?case by simp
next
  case (Cons raw raws)
  obtain st1 where st1: "processLine lc attendees raw st = Inr st1"
    using processLine_total by blast
  have "ownerSet st1" by (rule processLine_ownerSet [OF st1 Cons.prems(2)])
  moreover from Cons.prems(1) st1 have "scanLines lc attendees raws st1 = Inr st'" by simp
  ultimately show ?case by (rule Cons.IH [rotated])
qed

text \<open>
  C10: once a colon-prefix line has set currentOwner, nothing in the same call resets
  it. In a state reached by scanning any lines from the initial state in which
  currentOwner is a name: a header line and a terminator line leave that name in place;
  after any further lines currentOwner is still set, and it is still the same name when
  none of them is an owner-prefix line; and an in-section content line gets the carried
  name as its owner, whatever the attendee list and the default owner are. So the
  candidates of a section opened after an earlier one was closed still get the carried
  owner.
\<close>

theorem currentOwner_survives_sections:
  assumes "scanLines lc attendees before initialState = Inr st" and "currentOwner st = Some own"
  shows "(someTest sectionPatterns (trim raw) \<or> (someTest endPatterns (trim raw) \<and> inActionSection st)
            \<longrightarrow> (\<exists>st'. processLine lc attendees raw st = Inr st' \<and> currentOwner st' = Some own))
       \<and> (\<exists>st'. scanLines lc attendees raws st = Inr st' \<and> currentOwner st' \<noteq> None)
       \<and> ((\<forall>later \<in> set raws. ownerMatch (trim later) = None \<or> someTest sectionPatterns (trim later)
               \<or> someTest endPatterns (trim later))
            \<longrightarrow> (\<exists>st'. scanLines lc attendees raws st = Inr st' \<and> currentOwner st' = Some own))
       \<and> (inActionSection st \<and> \<not> someTest sectionPatterns (trim raw)
            \<and> \<not> someTest endPatterns (trim raw) \<and> ownerMatch (trim raw) = None
            \<and> 10 < length (trim raw)
            \<longrightarrow> processLine lc attendees raw st =
                  Inr (pushItem \<lparr>item = stripBullet (trim raw), owner = own\<rparr> st))"
proof (intro conjI impI)
  assume h: "someTest sectionPatterns (trim raw) \<or> (someTest endPatterns (trim raw) \<and> inActionSection st)"
  obtain st1 where st1: "processLine lc attendees raw st = Inr st1"
    using processLine_total by blast
  have "currentOwner st1 = currentOwner st"
    by (rule processLine_keeps_owner [OF st1]) (use h in auto)
  then show "\<exists>st'. processLine lc attendees raw st = Inr st' \<and> currentOwner st' = Some own"
    using st1 assms(2) by simp
next
  obtain st2 where st2: "scanLines lc attendees raws st = Inr st2"
    using scanLines_total by blast
  have "currentOwner st2 \<noteq> None"
    by (rule scanLines_owner_not_reset [OF st2]) (simp add: assms(2))
  then show "\<exists>st'. scanLines lc attendees raws st = Inr st' \<and> currentOwner st' \<noteq> None"
    using st2 by simp
next
  assume h: "\<forall>later \<in> set raws. ownerMatch (trim later) = None \<or> someTest sectionPatterns (trim later)
               \<or> someTest endPatterns (trim later)"
  obtain st2 where st2: "scanLines lc attendees raws st = Inr st2"
    using scanLines_total by blast
  from scanLines_keeps_owner [OF st2 h] assms(2)
  show "\<exists>st'. scanLines lc attendees raws st = Inr st' \<and> currentOwner st' = Some own"
    using st2 by simp
next
  assume h: "inActionSection st \<and> \<not> someTest sectionPatterns (trim raw)
            \<and> \<not> someTest endPatterns (trim raw) \<and> ownerMatch (trim raw) = None
            \<and> 10 < length (trim raw)"
  have "ownerSet initialState" by (simp add: ownerSet_def initialState_def)
  with assms(1) have "ownerSet st" by (rule scanLines_ownerSet)
  then have "own \<noteq> []" using assms(2) by (simp add: ownerSet_def)
  then have o: "orOwner (currentOwner st) (resolveOwner_spec lc (trim raw) attendees) = own"
    using assms(2) by (simp add: orOwner_def)
  from h have "trim raw \<noteq> []" by auto
  with h show "processLine lc attendees raw st =
                  Inr (pushItem \<lparr>item = stripBullet (trim raw), owner = own\<rparr> st)"
    by (simp add: processLine_content o)
qed

theorem currentOwner_survives_sections_witness:
  "scanLines asciiLowerCase [js ''Jenna Smith''] reopened initialState = Inr carriedState
   \<and> currentOwner carriedState = Some (js ''Cole'')
   \<and> inActionSection carriedState
   \<and> \<not> someTest sectionPatterns (trim (js ''Jenna will send invites''))
   \<and> \<not> someTest endPatterns (trim (js ''Jenna will send invites''))
   \<and> ownerMatch (trim (js ''Jenna will send invites'')) = None
   \<and> 10 < length (trim (js ''Jenna will send invites''))
   \<and> processLine asciiLowerCase [js ''Jenna Smith''] (js ''Jenna will send invites'') carriedState =
       Inr \<lparr>inActionSection = True, currentOwner = Some (js ''Cole''),
            items = [\<lparr>item = js ''Jenna will send invites'', owner = js ''Cole''\<rparr>]\<rparr>"
proof -
  let ?raw = "js ''Jenna will send invites''"
  have h1: "scanLines asciiLowerCase [js ''Jenna Smith''] reopened initialState = Inr carriedState"
    by code_simp
  have h2: "currentOwner carriedState = Some (js ''Cole'')" by (simp add: carriedState_def)
  have h3: "inActionSection carriedState" by (simp add: carriedState_def)
  have h4: "\<not> someTest sectionPatterns (trim ?raw)" by code_simp
  have h5: "\<not> someTest endPatterns (trim ?raw)" by code_simp
  have h6: "ownerMatch (trim ?raw) = None" by code_simp
  have h7: "10 < length (trim ?raw)" by code_simp
  have v: "pushItem \<lparr>item = stripBullet (trim ?raw), owner = js ''Cole''\<rparr> carriedState =
       \<lparr>inActionSection = True, currentOwner = Some (js ''Cole''),
            items = [\<lparr>item = ?raw, owner = js ''Cole''\<rparr>]\<rparr>"
    by code_simp
  note t = currentOwner_survives_sections [OF h1 h2, of ?raw "[]",
      THEN conjunct2, THEN conjunct2, THEN conjunct2, rule_format, unfolded v]
  have "processLine asciiLowerCase [js ''Jenna Smith''] ?raw carriedState =
       Inr \<lparr>inActionSection = True, currentOwner = Some (js ''Cole''),
            items = [\<lparr>item = ?raw, owner = js ''Cole''\<rparr>]\<rparr>"
    by (rule t) (simp add: h3 h4 h5 h6 h7)
  with h1 h2 h3 h4 h5 h6 h7 show ?thesis by blast
qed

section \<open>The shape of the items\<close>

lemma prefix_item_emitted:
  assumes "ownerMatch (trim raw) = Some (m1, m0)" "trim (drop (length m0) (trim raw)) \<noteq> []"
  shows "emittedFrom attendees raw \<lparr>item = trim (drop (length m0) (trim raw)), owner = m1\<rparr>"
proof -
  let ?rest = "trim (drop (length m0) (trim raw))"
  from trim_hd_last [OF assms(2)] have "\<not> isSpace (hd ?rest)" by simp
  moreover have "trim ?rest = ?rest" by (rule trim_idem)
  moreover have "m1 \<noteq> []" using assms(1) by (rule ownerMatch_group_not_Nil)
  moreover have "textFrom (trim raw) ?rest" using assms(1) by (simp add: textFrom_def)
  ultimately show ?thesis using assms(2) by (simp add: emittedFrom_def)
qed

lemma content_item_emitted:
  assumes "10 < length (trim raw)"
  shows "emittedFrom attendees raw
           \<lparr>item = stripBullet (trim raw),
            owner = orOwner cur (resolveOwner_spec lc (trim raw) attendees)\<rparr>"
proof -
  let ?line = "trim raw"
  have ne: "?line \<noteq> []" using assms by auto
  from trim_hd_last [OF ne] have hl: "\<not> isSpace (hd ?line)" "\<not> isSpace (last ?line)" by simp_all
  have "1 < length ?line" using assms by simp
  from stripBullet_trimmed [OF this hl]
  have s: "stripBullet ?line \<noteq> []" "\<not> isSpace (hd (stripBullet ?line))"
    "\<not> isSpace (last (stripBullet ?line))" by simp_all
  then have "trim (stripBullet ?line) = stripBullet ?line" by (rule trim_fixed)
  moreover have "[] \<notin> set attendees \<longrightarrow> orOwner cur (resolveOwner_spec lc ?line attendees) \<noteq> []"
    by (simp add: orOwner_not_Nil resolveOwner_spec_not_Nil)
  moreover have "textFrom ?line (stripBullet ?line)" by (simp add: textFrom_def)
  ultimately show ?thesis using s by (simp add: emittedFrom_def)
qed

lemma standalone_item_emitted:
  assumes "actionMatch (trim raw) = Some m0" "trim raw \<noteq> []"
  shows "emittedFrom attendees raw
           \<lparr>item = m0,
            owner = (case ownerNameMatch (trim raw) of None \<Rightarrow> defaultOwner | Some g \<Rightarrow> g)\<rparr>"
proof -
  let ?line = "trim raw"
  from trim_hd_last [OF assms(2)] have l: "\<not> isSpace (last ?line)" by simp
  from actionMatch_text [OF assms(1)]
  have m: "m0 \<noteq> []" "\<not> isSpace (hd m0)"
    "(\<forall>c \<in> set ?line. isDot c) \<longrightarrow> \<not> isSpace (last ?line) \<longrightarrow> \<not> isSpace (last m0)" by simp_all
  have "trim m0 = m0" if "list_all isDot raw"
  proof -
    from that have "\<forall>c \<in> set ?line. isDot c" using set_trim [of raw] by (auto simp: list_all_iff)
    with m(3) l have "\<not> isSpace (last m0)" by simp
    with m(1,2) show ?thesis by (simp add: trim_fixed)
  qed
  moreover have "(case ownerNameMatch ?line of None \<Rightarrow> defaultOwner | Some g \<Rightarrow> g) \<noteq> []"
    by (auto simp: defaultOwner_def js_def split: option.split dest: ownerNameMatch_not_Nil)
  moreover have "textFrom ?line m0" using assms(1) by (simp add: textFrom_def)
  ultimately show ?thesis using m(1,2) by (simp add: emittedFrom_def)
qed

lemma processLine_new_items:
  assumes "processLine lc attendees raw st = Inr st'" "x \<in> set (items st')"
  shows "x \<in> set (items st) \<or> emittedFrom attendees raw x"
proof (cases "trim raw = [] \<or> someTest sectionPatterns (trim raw)
              \<or> (someTest endPatterns (trim raw) \<and> inActionSection st)")
  case True
  then have "items st' = items st" using assms(1)
    by (auto simp: processLine_def Let_def split: if_splits)
  then show ?thesis using assms(2) by simp
next
  case False
  then have ne: "trim raw \<noteq> []" by simp
  show ?thesis
  proof (cases "inActionSection st")
    case outside: False
    with False have "processLine lc attendees raw st = Inr (standaloneRule (trim raw) st)"
      by (simp add: processLine_outside)
    with assms(1) have st': "st' = standaloneRule (trim raw) st" by simp
    show ?thesis
    proof (cases "actionMatch (trim raw)")
      case None
      then have "st' = st" using st' by (simp add: standaloneRule_no_match)
      then show ?thesis using assms(2) by simp
    next
      case (Some m0)
      then have "items st' = items st @ [\<lparr>item = m0,
            owner = (case ownerNameMatch (trim raw) of None \<Rightarrow> defaultOwner | Some g \<Rightarrow> g)\<rparr>]"
        using st' outside by (simp add: standaloneRule_def)
      then show ?thesis using assms(2) standalone_item_emitted [OF Some ne, of attendees] by auto
    qed
  next
    case inside: True
    with False have noend: "\<not> someTest endPatterns (trim raw)" and nohead: "\<not> someTest sectionPatterns (trim raw)"
      by simp_all
    show ?thesis
    proof (cases "ownerMatch (trim raw)")
      case None
      from processLine_content [OF ne nohead noend inside None, of lc attendees] assms(1)
      have st': "st' = (if length (trim raw) > 10
                then pushItem \<lparr>item = stripBullet (trim raw),
                       owner = orOwner (currentOwner st) (resolveOwner_spec lc (trim raw) attendees)\<rparr> st
                else st)" by simp
      show ?thesis
      proof (cases "10 < length (trim raw)")
        case True
        from content_item_emitted [OF True, of attendees "currentOwner st" lc] st' True assms(2)
        show ?thesis by auto
      next
        case False
        then show ?thesis using st' assms(2) by simp
      qed
    next
      case (Some p)
      obtain m1 m0 where p: "p = (m1, m0)" by (cases p)
      from processLine_prefix [OF ne nohead noend inside Some [unfolded p], of lc attendees] assms(1)
      have st': "st' = (if trim (drop (length m0) (trim raw)) \<noteq> []
                then pushItem \<lparr>item = trim (drop (length m0) (trim raw)), owner = m1\<rparr>
                       (st\<lparr>currentOwner := Some m1\<rparr>)
                else st\<lparr>currentOwner := Some m1\<rparr>)" by simp
      show ?thesis
      proof (cases "trim (drop (length m0) (trim raw)) = []")
        case True
        then show ?thesis using st' assms(2) by simp
      next
        case False
        from prefix_item_emitted [OF Some [unfolded p] False, of attendees] st' False assms(2)
        show ?thesis by auto
      qed
    qed
  qed
qed

lemma scanLines_new_items:
  assumes "scanLines lc attendees raws st = Inr st'" "x \<in> set (items st')"
  shows "x \<in> set (items st) \<or> (\<exists>raw \<in> set raws. emittedFrom attendees raw x)"
  using assms
proof (induction raws arbitrary: st)
  case Nil
  then show ?case by simp
next
  case (Cons raw raws)
  obtain st1 where st1: "processLine lc attendees raw st = Inr st1"
    using processLine_total by blast
  with Cons.prems(1) have "scanLines lc attendees raws st1 = Inr st'" by simp
  from Cons.IH [OF this Cons.prems(2)]
  have "x \<in> set (items st1) \<or> (\<exists>raw \<in> set raws. emittedFrom attendees raw x)" .
  then show ?case
  proof
    assume "x \<in> set (items st1)"
    from processLine_new_items [OF st1 this] show ?thesis by auto
  next
    assume "\<exists>raw \<in> set raws. emittedFrom attendees raw x"
    then show ?thesis by auto
  qed
qed

lemma dedup_subset: "set (dedup lc seen xs) \<subseteq> set xs"
  by (induction xs arbitrary: seen) auto

text \<open>
  C4, as amended: for every panel text and attendee list, every item of the output has
  a text that is not empty and does not begin with whitespace; the text is trimmed
  whenever the panel text holds no CR, U+2028 or U+2029; for some line of the panel text
  the text is the trimmed line without one leading bullet marker (one of \<^verbatim>\<open>-\<close>,
  \<^verbatim>\<open>*\<close>, U+2022, and the whitespace after it), or the whole match of the
  name-plus-modal pattern in that line, or the trimmed text after the colon of its owner
  prefix; and the owner is not empty whenever no attendee name is the empty string.
\<close>

theorem items_wellformed:
  assumes "extractActionItems lc panelText meetingTitle meetingDate attendees = Inr result"
    and "x \<in> set result"
  shows "item x \<noteq> [] \<and> \<not> isSpace (hd (item x))
       \<and> ((\<forall>c \<in> set panelText. isDot c \<or> c = 0xA) \<longrightarrow> trim (item x) = item x)
       \<and> ([] \<notin> set attendees \<longrightarrow> owner x \<noteq> [])
       \<and> (\<exists>raw \<in> set (split_js 0xA panelText). textFrom (trim raw) (item x))
       \<and> (\<forall>c cs. stripBullet [] = []
             \<and> stripBullet (c # cs) = (if isBullet c then dropWhile isSpace cs else c # cs))"
proof -
  obtain st where st: "scanLines lc attendees (split_js 0xA panelText) initialState = Inr st"
    using scanLines_total by blast
  with assms have "x \<in> set (dedup lc {} (items st))" by (simp add: extractActionItems_def)
  then have "x \<in> set (items st)" using dedup_subset by blast
  from scanLines_new_items [OF st this]
  obtain raw where raw: "raw \<in> set (split_js 0xA panelText)" "emittedFrom attendees raw x"
    by (auto simp: initialState_def)
  have "list_all isDot raw" if "\<forall>c \<in> set panelText. isDot c \<or> c = 0xA"
    using split_js_sets [OF raw(1)] that by (auto simp: list_all_iff)
  with raw show ?thesis by (auto simp: emittedFrom_def stripBullet_eq)
qed

theorem items_wellformed_witness:
  "extractActionItems asciiLowerCase tidyText [] [] [js ''Jenna Smith''] =
     Inr [\<lparr>item = js ''Jacob to review the contract'', owner = js ''Jacob''\<rparr>,
          \<lparr>item = js ''check the numbers'', owner = js ''Cole''\<rparr>,
          \<lparr>item = js ''email the new pricing'', owner = js ''Cole''\<rparr>]
   \<and> list_all (\<lambda>c. isDot c \<or> c = 0xA) tidyText
   \<and> [] \<notin> set [js ''Jenna Smith'']
   \<and> trim (js ''email the new pricing'') = js ''email the new pricing''
   \<and> js ''email the new pricing'' \<noteq> []
   \<and> js ''Cole'' \<noteq> []"
proof -
  let ?x = "\<lparr>item = js ''email the new pricing'', owner = js ''Cole''\<rparr>"
  have h1: "extractActionItems asciiLowerCase tidyText [] [] [js ''Jenna Smith''] =
     Inr [\<lparr>item = js ''Jacob to review the contract'', owner = js ''Jacob''\<rparr>,
          \<lparr>item = js ''check the numbers'', owner = js ''Cole''\<rparr>, ?x]"
    by code_simp
  have h2: "?x \<in> set [\<lparr>item = js ''Jacob to review the contract'', owner = js ''Jacob''\<rparr>,
          \<lparr>item = js ''check the numbers'', owner = js ''Cole''\<rparr>, ?x]" by simp
  have h3: "list_all (\<lambda>c. isDot c \<or> c = 0xA) tidyText" by code_simp
  then have h3': "\<forall>c \<in> set tidyText. isDot c \<or> c = 0xA" by (simp add: list_all_iff)
  have h4: "[] \<notin> set [js ''Jenna Smith'']" by (simp add: js_def)
  note t = items_wellformed [OF h1 h2]
  from t h3' have "trim (js ''email the new pricing'') = js ''email the new pricing''" by simp
  moreover from t have "js ''email the new pricing'' \<noteq> []" by simp
  moreover from t h4 have "js ''Cole'' \<noteq> []" by simp
  ultimately show ?thesis using h1 h3 h4 by blast
qed

text \<open>
  C4 as stated fails. A CR inside a line ends the match of the standalone rule, which
  leaves a trailing space in the text; the content rule removes one bullet marker only,
  so a second one stays; and an attendee whose name is the empty string matches every
  line and becomes the owner.
\<close>

theorem items_wellformed_counterexample:
  "extractActionItems asciiLowerCase messyText [] [] [Nil] =
     Inr [\<lparr>item = js ''Blake to call '', owner = js ''Blake''\<rparr>,
          \<lparr>item = js ''- call the vendor today'', owner = []\<rparr>]
   \<and> trim (js ''Blake to call '') \<noteq> js ''Blake to call ''
   \<and> stripBullet (js ''- call the vendor today'') \<noteq> js ''- call the vendor today''"
  by code_simp

section \<open>Deduplication\<close>

lemma dedup_subseq: "subseq (dedup lc seen xs) xs"
  by (induction xs arbitrary: seen) auto

lemma dedup_keys: "dedupKey lc ` set (dedup lc seen xs) = dedupKey lc ` set xs - seen"
  by (induction xs arbitrary: seen) auto

lemma dedup_distinct: "distinct (map (dedupKey lc) (dedup lc seen xs))"
  by (induction xs arbitrary: seen) (auto simp: dedup_keys)

lemma dedup_find:
  "List.find (\<lambda>y. dedupKey lc y = k) (dedup lc seen xs) =
     (if k \<in> seen then None else List.find (\<lambda>y. dedupKey lc y = k) xs)"
  by (induction xs arbitrary: seen) auto

lemma dedup_snoc:
  "dedup lc seen (xs @ [x]) =
     dedup lc seen xs @ (if dedupKey lc x \<in> seen \<union> dedupKey lc ` set xs then [] else [x])"
  by (induction xs arbitrary: seen) auto

lemma dedup_fixed:
  "distinct (map (dedupKey lc) ys) \<Longrightarrow> dedupKey lc ` set ys \<inter> seen = {} \<Longrightarrow> dedup lc seen ys = ys"
  by (induction ys arbitrary: seen) auto

lemma dedup_idem: "dedup lc {} (dedup lc {} xs) = dedup lc {} xs"
  by (rule dedup_fixed) (simp_all add: dedup_distinct)

text \<open>
  C5: the deduplication pass keeps, for each key (the first 50 units of the lowercased
  text), the first candidate in scan order and nothing else, in the order of the input:
  the output is a subsequence of the input with pairwise distinct keys; for every key
  the first candidate with that key is the same in output and input; a candidate
  appended to the input is kept exactly when no earlier candidate has its key; two
  candidates with the same key collapse to the first; and the pass is idempotent.
\<close>

theorem dedup_first_occurrence_stable:
  "subseq (dedup lc {} xs) xs
   \<and> distinct (map (dedupKey lc) (dedup lc {} xs))
   \<and> List.find (\<lambda>y. dedupKey lc y = k) (dedup lc {} xs) = List.find (\<lambda>y. dedupKey lc y = k) xs
   \<and> dedup lc {} (xs @ [c]) =
       dedup lc {} xs @ (if dedupKey lc c \<in> dedupKey lc ` set xs then [] else [c])
   \<and> (take 50 (lc (item x)) = take 50 (lc (item y)) \<longrightarrow> dedup lc {} [x, y] = [x])
   \<and> dedup lc {} (dedup lc {} xs) = dedup lc {} xs"
proof (intro conjI)
  show "subseq (dedup lc {} xs) xs" by (rule dedup_subseq)
  show "distinct (map (dedupKey lc) (dedup lc {} xs))" by (rule dedup_distinct)
  show "List.find (\<lambda>y. dedupKey lc y = k) (dedup lc {} xs) = List.find (\<lambda>y. dedupKey lc y = k) xs"
    by (simp add: dedup_find)
  show "dedup lc {} (xs @ [c]) =
       dedup lc {} xs @ (if dedupKey lc c \<in> dedupKey lc ` set xs then [] else [c])"
    by (simp add: dedup_snoc)
  show "take 50 (lc (item x)) = take 50 (lc (item y)) \<longrightarrow> dedup lc {} [x, y] = [x]"
    by (simp add: dedupKey_def)
  show "dedup lc {} (dedup lc {} xs) = dedup lc {} xs" by (rule dedup_idem)
qed

theorem dedup_first_occurrence_stable_witness:
  "take 50 (asciiLowerCase (item itemA)) = take 50 (asciiLowerCase (item itemB))
   \<and> dedup asciiLowerCase {} [itemA, itemB] = [itemA]
   \<and> dedup asciiLowerCase {} ([itemA, itemC] @ [itemB]) = [itemA, itemC]
   \<and> subseq (dedup asciiLowerCase {} [itemA, itemC]) [itemA, itemC]"
proof -
  have h: "take 50 (asciiLowerCase (item itemA)) = take 50 (asciiLowerCase (item itemB))"
    by code_simp
  have k: "dedupKey asciiLowerCase itemB \<in> dedupKey asciiLowerCase ` set [itemA, itemC]"
    using h by (simp add: dedupKey_def)
  have c: "dedup asciiLowerCase {} [itemA, itemC] = [itemA, itemC]"
    by code_simp
  note t = dedup_first_occurrence_stable [of asciiLowerCase "[itemA, itemC]" "[]" itemB itemA itemB]
  from t h have "dedup asciiLowerCase {} [itemA, itemB] = [itemA]" by blast
  moreover from t k c have "dedup asciiLowerCase {} ([itemA, itemC] @ [itemB]) = [itemA, itemC]"
    by simp
  moreover from t have "subseq (dedup asciiLowerCase {} [itemA, itemC]) [itemA, itemC]" by blast
  ultimately show ?thesis using h by blast
qed


end
